theory Spec2Isabelle
  imports Complex_Main "HOL-Library.Word"
begin

section \<open>Colours, arrays and files\<close>

text \<open>
  A colour is a NumPy row of three \<open>uint8\<close> channels. Source images and previews hold
  them in BGR order, the resized texture (the palette) in RGB order. Arithmetic on
  \<open>uint8\<close> arrays wraps modulo 256, as on \<open>8 word\<close>.

  An image array of shape \<open>(height, width, 3)\<close> is a record of its two dimensions and
  its pixels, read as \<open>px img j i\<close> for \<open>img[j, i]\<close> (row \<open>j\<close>, column \<open>i\<close>). All
  reads and writes of the program are inside the shape.

  The texture enters the three functions of \<open>main.py\<close> only through
  \<open>texture_resized = cv.resize(cv.cvtColor(texture, cv.COLOR_BGR2RGB), (7, 6))\<close>,
  computed by the same two OpenCV calls in each of them. The model takes that 6 x 7
  array as the argument: \<open>pal v u\<close> is \<open>texture_resized[v, u]\<close>.

  A Python float is a \<open>pyfloat\<close>: a real number, an infinity or not-a-number. The
  decoder's arithmetic on a value read from the stream is the exact operation followed
  by \<open>round64\<close>, the rounding of binary64 to the nearest value, ties to even, with
  overflow to an infinity. The distances and the encoder's two divisions are computed
  on real numbers.
\<close>

type_synonym uint8 = "8 word"

type_synonym colour = "uint8 \<times> uint8 \<times> uint8"

type_synonym palette = "nat \<Rightarrow> nat \<Rightarrow> colour"

record image =
  height :: nat
  width :: nat
  px :: "nat \<Rightarrow> nat \<Rightarrow> colour"

type_synonym files = "string \<rightharpoonup> image"

datatype error = IndexError | ValueError | OverflowError

datatype pyfloat = Fin real | PosInf | NegInf | NaN

definition black :: colour where
  "black = (0, 0, 0)"

definition np_zeros :: "nat \<Rightarrow> nat \<Rightarrow> image" where
  "np_zeros h w = \<lparr>height = h, width = w, px = (\<lambda>j i. black)\<rparr>"

definition set_px :: "image \<Rightarrow> nat \<Rightarrow> nat \<Rightarrow> colour \<Rightarrow> image" where
  "set_px img j i c = img\<lparr>px := (px img)(j := (px img j)(i := c))\<rparr>"

definition cv_flip0 :: "image \<Rightarrow> image" where
  "cv_flip0 img =
     img\<lparr>px := (\<lambda>j i. if j < height img then px img (height img - 1 - j) i else px img j i)\<rparr>"

definition cv_imwrite :: "string \<Rightarrow> image \<Rightarrow> files \<Rightarrow> files" where
  "cv_imwrite path img fs = fs(path \<mapsto> img)"

text \<open>\<open>(c[2], c[1], c[0])\<close>: BGR to RGB and back.\<close>

definition rev_channels :: "colour \<Rightarrow> colour" where
  "rev_channels c = (case c of (c0, c1, c2) \<Rightarrow> (c2, c1, c0))"

text \<open>\<open>np.array(a) - np.array(b)\<close> on \<open>uint8\<close> arrays, and \<open>cv.norm\<close> (the L2 norm).\<close>

definition np_sub :: "colour \<Rightarrow> colour \<Rightarrow> colour" where
  "np_sub a b = (case a of (a0, a1, a2) \<Rightarrow> case b of (b0, b1, b2) \<Rightarrow> (a0 - b0, a1 - b1, a2 - b2))"

definition cv_norm :: "colour \<Rightarrow> real" where
  "cv_norm c = (case c of (c0, c1, c2) \<Rightarrow> sqrt (real ((unat c0)\<^sup>2 + (unat c1)\<^sup>2 + (unat c2)\<^sup>2)))"

definition np_clip :: "'a::linorder \<Rightarrow> 'a \<Rightarrow> 'a \<Rightarrow> 'a" where
  "np_clip x lo hi = min (max x lo) hi"

section \<open>color_algorithms.py\<close>

text \<open>
  \<open>cv.cvtColor\<close> on a single 8-bit pixel is OpenCV's, not this repository's: the two
  conversions the algorithms use are parameters.
\<close>

record opencv =
  RGB2HSV :: "colour \<Rightarrow> colour"
  RGB2LAB :: "colour \<Rightarrow> colour"

definition chan0 :: "colour \<Rightarrow> real" where
  "chan0 c = (case c of (c0, c1, c2) \<Rightarrow> real (unat c0))"

definition chan1 :: "colour \<Rightarrow> real" where
  "chan1 c = (case c of (c0, c1, c2) \<Rightarrow> real (unat c1))"

definition chan2 :: "colour \<Rightarrow> real" where
  "chan2 c = (case c of (c0, c1, c2) \<Rightarrow> real (unat c2))"

text \<open>
  The seven functions share one loop: \<open>for v in range(6): for u in range(7)\<close>, a
  distance of the pixel to \<open>texture_resized[v, u]\<close>, and an update of
  \<open>min_dist, best_u, best_v\<close> when the distance is below \<open>min_dist\<close>. The loop is
  \<open>closest_cell\<close>; \<open>min_dist = float('inf')\<close> is \<open>None\<close>. Each function's loop body is
  a distance of the RGB pixel to a texture colour.
\<close>

definition cells :: "(nat \<times> nat) list" where
  "cells = concat (map (\<lambda>v. map (\<lambda>u. (v, u)) [0..<7]) [0..<6])"

definition scan_step ::
  "(colour \<Rightarrow> real) \<Rightarrow> palette \<Rightarrow> real option \<times> nat \<times> nat \<Rightarrow> nat \<times> nat \<Rightarrow> real option \<times> nat \<times> nat" where
  "scan_step dfun pal st vu =
     (case vu of (v, u) \<Rightarrow>
        let d = dfun (pal v u) in
        if (case fst st of None \<Rightarrow> True | Some min_dist \<Rightarrow> d < min_dist)
        then (Some d, u, v) else st)"

definition closest_cell :: "(colour \<Rightarrow> real) \<Rightarrow> palette \<Rightarrow> nat \<times> nat" where
  "closest_cell dfun pal = snd (foldl (scan_step dfun pal) (None, 0, 0) cells)"

definition dist_rgb :: "colour \<Rightarrow> colour \<Rightarrow> real" where
  "dist_rgb pixel_rgb texture_colour = cv_norm (np_sub pixel_rgb texture_colour)"

definition hue_dist :: "colour \<Rightarrow> colour \<Rightarrow> real" where
  "hue_dist pixel_hsv texture_hsv =
     min \<bar>chan0 pixel_hsv - chan0 texture_hsv\<bar> (180 - \<bar>chan0 pixel_hsv - chan0 texture_hsv\<bar>) / 180"

definition dist_perceptual :: "opencv \<Rightarrow> colour \<Rightarrow> colour \<Rightarrow> real" where
  "dist_perceptual cv pixel_rgb texture_colour =
     (let rgb_dist = cv_norm (np_sub pixel_rgb texture_colour);
          pixel_lab = RGB2LAB cv pixel_rgb;
          texture_lab = RGB2LAB cv texture_colour;
          lab_dist = cv_norm (np_sub pixel_lab texture_lab)
      in (6 / 10) * lab_dist + (4 / 10) * rgb_dist)"

definition dist_hsv :: "opencv \<Rightarrow> colour \<Rightarrow> colour \<Rightarrow> real" where
  "dist_hsv cv pixel_rgb texture_colour =
     (let pixel_hsv = RGB2HSV cv pixel_rgb;
          texture_hsv = RGB2HSV cv texture_colour;
          h_dist = hue_dist pixel_hsv texture_hsv;
          s_dist = \<bar>chan1 pixel_hsv - chan1 texture_hsv\<bar> / 255;
          v_dist = \<bar>chan2 pixel_hsv - chan2 texture_hsv\<bar> / 255
      in (1 / 2) * h_dist + (1 / 4) * s_dist + (1 / 4) * v_dist)"

definition dist_lab :: "opencv \<Rightarrow> colour \<Rightarrow> colour \<Rightarrow> real" where
  "dist_lab cv pixel_rgb texture_colour =
     (let pixel_lab = RGB2LAB cv pixel_rgb;
          texture_lab = RGB2LAB cv texture_colour;
          l_diff = \<bar>chan0 pixel_lab - chan0 texture_lab\<bar> / 100;
          a_diff = \<bar>chan1 pixel_lab - chan1 texture_lab\<bar> / 255;
          b_diff = \<bar>chan2 pixel_lab - chan2 texture_lab\<bar> / 255
      in (1 / 2) * l_diff + (1 / 4) * a_diff + (1 / 4) * b_diff)"

definition dist_weighted :: "opencv \<Rightarrow> colour \<Rightarrow> colour \<Rightarrow> real" where
  "dist_weighted cv pixel_rgb texture_colour =
     (let pixel_hsv = RGB2HSV cv pixel_rgb;
          texture_hsv = RGB2HSV cv texture_colour;
          rgb_dist = cv_norm (np_sub pixel_rgb texture_colour);
          sat_diff = \<bar>chan1 pixel_hsv - chan1 texture_hsv\<bar> / 255
      in rgb_dist + sat_diff * 100)"

definition dist_simple :: "opencv \<Rightarrow> colour \<Rightarrow> colour \<Rightarrow> real" where
  "dist_simple cv pixel_rgb texture_colour =
     (let pixel_saturation = chan1 (RGB2HSV cv pixel_rgb);
          texture_saturation = chan1 (RGB2HSV cv texture_colour);
          rgb_dist = cv_norm (np_sub pixel_rgb texture_colour)
      in if pixel_saturation > 30 \<and> texture_saturation < 30 then rgb_dist * 2 else rgb_dist)"

definition dist_perceptual_hsv :: "opencv \<Rightarrow> colour \<Rightarrow> colour \<Rightarrow> real" where
  "dist_perceptual_hsv cv pixel_rgb texture_colour =
     (let pixel_hsv = RGB2HSV cv pixel_rgb;
          texture_hsv = RGB2HSV cv texture_colour;
          hue_diff = hue_dist pixel_hsv texture_hsv;
          sat_diff = \<bar>chan1 pixel_hsv - chan1 texture_hsv\<bar> / 255;
          val_diff = \<bar>chan2 pixel_hsv - chan2 texture_hsv\<bar> / 255
      in (6 / 10) * hue_diff * 255 + (1 / 4) * sat_diff * 255 + (15 / 100) * val_diff * 255)"

definition find_closest_colour_perceptual :: "opencv \<Rightarrow> colour \<Rightarrow> palette \<Rightarrow> nat \<times> nat" where
  "find_closest_colour_perceptual cv pixel_colour texture_resized =
     closest_cell (dist_perceptual cv (rev_channels pixel_colour)) texture_resized"

definition find_closest_colour_rgb :: "colour \<Rightarrow> palette \<Rightarrow> nat \<times> nat" where
  "find_closest_colour_rgb pixel_colour texture_resized =
     closest_cell (dist_rgb (rev_channels pixel_colour)) texture_resized"

definition find_closest_colour_hsv :: "opencv \<Rightarrow> colour \<Rightarrow> palette \<Rightarrow> nat \<times> nat" where
  "find_closest_colour_hsv cv pixel_colour texture_resized =
     closest_cell (dist_hsv cv (rev_channels pixel_colour)) texture_resized"

definition find_closest_colour_lab :: "opencv \<Rightarrow> colour \<Rightarrow> palette \<Rightarrow> nat \<times> nat" where
  "find_closest_colour_lab cv pixel_colour texture_resized =
     closest_cell (dist_lab cv (rev_channels pixel_colour)) texture_resized"

definition find_closest_colour_weighted :: "opencv \<Rightarrow> colour \<Rightarrow> palette \<Rightarrow> nat \<times> nat" where
  "find_closest_colour_weighted cv pixel_colour texture_resized =
     closest_cell (dist_weighted cv (rev_channels pixel_colour)) texture_resized"

definition find_closest_colour_simple :: "opencv \<Rightarrow> colour \<Rightarrow> palette \<Rightarrow> nat \<times> nat" where
  "find_closest_colour_simple cv pixel_colour texture_resized =
     closest_cell (dist_simple cv (rev_channels pixel_colour)) texture_resized"

definition find_closest_colour_perceptual_hsv :: "opencv \<Rightarrow> colour \<Rightarrow> palette \<Rightarrow> nat \<times> nat" where
  "find_closest_colour_perceptual_hsv cv pixel_colour texture_resized =
     closest_cell (dist_perceptual_hsv cv (rev_channels pixel_colour)) texture_resized"

text \<open>The keys of the \<open>ALGORITHMS\<close> dictionary, the function and the distance of each.\<close>

datatype metric = Perceptual | Rgb | Hsv | Lab | Weighted | Simple | Perceptual_hsv

definition ALGORITHMS :: "(string \<times> metric) list" where
  "ALGORITHMS =
     [(''perceptual'', Perceptual), (''rgb'', Rgb), (''hsv'', Hsv), (''lab'', Lab),
      (''weighted'', Weighted), (''simple'', Simple), (''perceptual_hsv'', Perceptual_hsv)]"

fun algorithm :: "opencv \<Rightarrow> metric \<Rightarrow> colour \<Rightarrow> palette \<Rightarrow> nat \<times> nat" where
  "algorithm cv Perceptual = find_closest_colour_perceptual cv"
| "algorithm cv Rgb = find_closest_colour_rgb"
| "algorithm cv Hsv = find_closest_colour_hsv cv"
| "algorithm cv Lab = find_closest_colour_lab cv"
| "algorithm cv Weighted = find_closest_colour_weighted cv"
| "algorithm cv Simple = find_closest_colour_simple cv"
| "algorithm cv Perceptual_hsv = find_closest_colour_perceptual_hsv cv"

fun distance :: "opencv \<Rightarrow> metric \<Rightarrow> colour \<Rightarrow> colour \<Rightarrow> real" where
  "distance cv Perceptual = dist_perceptual cv"
| "distance cv Rgb = dist_rgb"
| "distance cv Hsv = dist_hsv cv"
| "distance cv Lab = dist_lab cv"
| "distance cv Weighted = dist_weighted cv"
| "distance cv Simple = dist_simple cv"
| "distance cv Perceptual_hsv = dist_perceptual_hsv cv"

definition get_available_algorithms :: "string list" where
  "get_available_algorithms = map fst ALGORITHMS"

definition get_algorithm_function ::
  "opencv \<Rightarrow> string \<Rightarrow> (colour \<Rightarrow> palette \<Rightarrow> nat \<times> nat) option" where
  "get_algorithm_function cv algorithm_name = map_option (algorithm cv) (map_of ALGORITHMS algorithm_name)"

section \<open>main.py\<close>

subsection \<open>Strings\<close>

text \<open>\<open>s.split(c)\<close> and \<open>c.join(xs)\<close> for a one-character separator.\<close>

fun split_str :: "char \<Rightarrow> string \<Rightarrow> string list" where
  "split_str c [] = [[]]"
| "split_str c (x # xs) =
     (if x = c then [] # split_str c xs
      else (case split_str c xs of [] \<Rightarrow> [[x]] | w # ws \<Rightarrow> (x # w) # ws))"

fun join_str :: "char \<Rightarrow> string list \<Rightarrow> string" where
  "join_str c [] = []"
| "join_str c [x] = x"
| "join_str c (x # y # ys) = x @ c # join_str c (y # ys)"

text \<open>
  \<open>f"{x:.2f}"\<close>: the nearest multiple of 1/100, ties to even, written with the integer
  part, a point and two digits.
\<close>

definition round_half_even :: "real \<Rightarrow> int" where
  "round_half_even x =
     (let f = \<lfloor>x\<rfloor>; r = x - of_int f
      in if r < 1 / 2 then f else if r > 1 / 2 then f + 1 else if even f then f else f + 1)"

definition digit_char :: "nat \<Rightarrow> char" where
  "digit_char n = ''0123456789'' ! (n mod 10)"

fun str_nat :: "nat \<Rightarrow> string" where
  "str_nat n = (if n < 10 then [digit_char n] else str_nat (n div 10) @ [digit_char n])"

declare str_nat.simps [simp del]

definition fmt2 :: "real \<Rightarrow> string" where
  "fmt2 x =
     (let n = nat (round_half_even (\<bar>x\<bar> * 100))
      in (if x < 0 then ''-'' else '''') @ str_nat (n div 100) @ ''.''
         @ [digit_char (n div 10), digit_char n])"

subsection \<open>Encoder\<close>

text \<open>The body of the encoder's inner loop after the call of \<open>algorithm_func\<close>.\<close>

definition uv_token :: "nat \<times> nat \<Rightarrow> string" where
  "uv_token best =
     (case best of (best_u, best_v) \<Rightarrow>
        let best_u = np_clip best_u 0 6;
            best_v = np_clip best_v 0 5;
            best_u = np_clip (real best_u / 6) (1 / 100) (99 / 100);
            best_v = np_clip (1 - real best_v / 5) (1 / 100) (99 / 100)
        in fmt2 best_u @ '':'' @ fmt2 best_v)"

text \<open>\<open>enlarged_img[y1:y2, x1:x2] = c\<close>; a slice is cut to the array's shape.\<close>

definition fill_block :: "image \<Rightarrow> nat \<Rightarrow> nat \<Rightarrow> nat \<Rightarrow> nat \<Rightarrow> colour \<Rightarrow> image" where
  "fill_block img y1 y2 x1 x2 c =
     img\<lparr>px := (\<lambda>y x. if y1 \<le> y \<and> y < y2 \<and> y < height img \<and> x1 \<le> x \<and> x < x2 \<and> x < width img
                       then c else px img y x)\<rparr>"

definition save_resized_texture :: "palette \<Rightarrow> string \<Rightarrow> files \<Rightarrow> image \<times> files" where
  "save_resized_texture texture_resized output_path fs =
     (let square_size = 50;
          img_width = 7 * square_size;
          img_height = 6 * square_size;
          enlarged_img =
            foldl (\<lambda>img vu. case vu of (v, u) \<Rightarrow>
                     fill_block img (v * square_size) ((v + 1) * square_size)
                       (u * square_size) ((u + 1) * square_size)
                       (rev_channels (texture_resized v u)))
                  (np_zeros img_height img_width) cells
      in (enlarged_img, cv_imwrite output_path enlarged_img fs))"

text \<open>
  \<open>cv.resize(source_image, (100, 66))\<close> is the parameter \<open>cv_resize\<close>; the call
  \<open>save_resized_texture(texture)\<close> uses the default \<open>output_path\<close>. The function returns
  the stream together with the files after the call.
\<close>

definition serialize_image_to_uv ::
  "(image \<Rightarrow> image) \<Rightarrow> image \<Rightarrow> palette \<Rightarrow> (colour \<Rightarrow> palette \<Rightarrow> nat \<times> nat) \<Rightarrow> files
     \<Rightarrow> string \<times> files" where
  "serialize_image_to_uv cv_resize source_image texture_resized algorithm_func fs =
     (let source_image =
            (if width source_image \<noteq> 100 \<or> height source_image \<noteq> 66
             then cv_resize source_image else source_image);
          fs = snd (save_resized_texture texture_resized ''resized_texture.png'' fs);
          w = width source_image;
          h = height source_image;
          serialized_list =
            concat (map (\<lambda>i. map (\<lambda>j. uv_token (algorithm_func (px source_image j i) texture_resized))
                                  (rev [0..<h]))
                        [0..<w])
      in (join_str CHR '','' serialized_list, fs))"

subsection \<open>Decoder\<close>

text \<open>
  \<open>float(s)\<close> is Python's: the parameter \<open>float_of\<close>, with \<open>None\<close> for its
  \<open>ValueError\<close>.

  \<open>round64 x\<close> is the binary64 value of an exact result \<open>x\<close>: with \<open>e\<close> the exponent
  of \<open>x\<close>, not below that of the least normal value, \<open>x\<close> is rounded to a multiple of
  \<open>2 ^ (e - 52)\<close>, ties to even, and a result of magnitude \<open>2 ^ 1024\<close> or more is an
  infinity. \<open>x * k\<close> and \<open>k - y\<close> for a positive constant \<open>k\<close> round their exact result;
  \<open>int(x)\<close> truncates towards zero and raises on a value that is not finite.
\<close>

definition round64 :: "real \<Rightarrow> pyfloat" where
  "round64 x =
     (if x = 0 then Fin 0
      else let e = max \<lfloor>log 2 \<bar>x\<bar>\<rfloor> (- 1022);
               q = 2 powr (of_int e - 52);
               r = of_int (round_half_even (x / q)) * q
           in if 2 powr 1024 \<le> \<bar>r\<bar> then (if 0 < x then PosInf else NegInf) else Fin r)"

fun py_mul :: "pyfloat \<Rightarrow> real \<Rightarrow> pyfloat" where
  "py_mul (Fin r) k = round64 (r * k)"
| "py_mul PosInf k = PosInf"
| "py_mul NegInf k = NegInf"
| "py_mul NaN k = NaN"

fun py_rsub :: "real \<Rightarrow> pyfloat \<Rightarrow> pyfloat" where
  "py_rsub k (Fin r) = round64 (k - r)"
| "py_rsub k PosInf = NegInf"
| "py_rsub k NegInf = PosInf"
| "py_rsub k NaN = NaN"

fun py_int :: "pyfloat \<Rightarrow> error + int" where
  "py_int (Fin r) = Inr (if 0 \<le> r then \<lfloor>r\<rfloor> else \<lceil>r\<rceil>)"
| "py_int NaN = Inl ValueError"
| "py_int PosInf = Inl OverflowError"
| "py_int NegInf = Inl OverflowError"

text \<open>The body of the decoder's inner loop from \<open>uv_pair\<close> to \<open>colour_bgr\<close>.\<close>

definition decode_pair :: "(string \<Rightarrow> pyfloat option) \<Rightarrow> palette \<Rightarrow> string \<Rightarrow> error + colour" where
  "decode_pair float_of texture_resized uv_pair =
     (case split_str CHR '':'' uv_pair of
        [] \<Rightarrow> Inl IndexError
      | a0 # rest \<Rightarrow>
          (case float_of a0 of
             None \<Rightarrow> Inl ValueError
           | Some x \<Rightarrow>
               (case rest of
                  [] \<Rightarrow> Inl IndexError
                | a1 # _ \<Rightarrow>
                    (case float_of a1 of
                       None \<Rightarrow> Inl ValueError
                     | Some y \<Rightarrow>
                         (case py_int (py_mul x 7) of
                            Inl e \<Rightarrow> Inl e
                          | Inr texture_u \<Rightarrow>
                              (case py_int (py_mul (py_rsub 1 y) 6) of
                                 Inl e \<Rightarrow> Inl e
                               | Inr texture_v \<Rightarrow>
                                   let texture_u = max 0 (min 6 texture_u);
                                       texture_v = max 0 (min 5 texture_v);
                                       colour_rgb = texture_resized (nat texture_v) (nat texture_u)
                                   in Inr (rev_channels colour_rgb)))))))"

text \<open>
  The inner loop \<open>for j in range(height)\<close> of column \<open>i\<close>, with its \<open>break\<close>, and the
  outer loop \<open>for i in range(width)\<close>; the state is \<open>(num, preview_img)\<close>.
\<close>

fun preview_column ::
  "(string \<Rightarrow> pyfloat option) \<Rightarrow> palette \<Rightarrow> string list \<Rightarrow> nat \<Rightarrow> nat list \<Rightarrow> nat \<times> image
     \<Rightarrow> error + nat \<times> image" where
  "preview_column float_of pal uv_pairs i [] st = Inr st"
| "preview_column float_of pal uv_pairs i (j # js) st =
     (case st of (num, preview_img) \<Rightarrow>
        if num \<ge> length uv_pairs then Inr st
        else (case decode_pair float_of pal (uv_pairs ! num) of
                Inl e \<Rightarrow> Inl e
              | Inr colour_bgr \<Rightarrow>
                  preview_column float_of pal uv_pairs i js (num + 1, set_px preview_img j i colour_bgr)))"

fun preview_columns ::
  "(string \<Rightarrow> pyfloat option) \<Rightarrow> palette \<Rightarrow> string list \<Rightarrow> nat \<Rightarrow> nat list \<Rightarrow> nat \<times> image
     \<Rightarrow> error + nat \<times> image" where
  "preview_columns float_of pal uv_pairs h [] st = Inr st"
| "preview_columns float_of pal uv_pairs h (i # is) st =
     (case preview_column float_of pal uv_pairs i [0..<h] st of
        Inl e \<Rightarrow> Inl e
      | Inr st' \<Rightarrow> preview_columns float_of pal uv_pairs h is st')"

text \<open>The \<open>print\<close> of the source writes to standard output, which is not modelled.\<close>

definition create_uv_preview_image ::
  "(string \<Rightarrow> pyfloat option) \<Rightarrow> string \<Rightarrow> palette \<Rightarrow> string \<Rightarrow> files \<Rightarrow> error + image \<times> files" where
  "create_uv_preview_image float_of serialized_data texture_resized output_path fs =
     (let uv_pairs = split_str CHR '','' serialized_data;
          w = 100;
          h = 66;
          preview_img = np_zeros h w
      in case preview_columns float_of texture_resized uv_pairs h [0..<w] (0, preview_img) of
           Inl e \<Rightarrow> Inl e
         | Inr (num, preview_img) \<Rightarrow>
             let preview_img = cv_flip0 preview_img
             in Inr (preview_img, cv_imwrite output_path preview_img fs))"

section \<open>Concrete inputs\<close>

text \<open>
  A parser for plain decimal numerals (digits with at most one point), the part of
  the grammar of \<open>float()\<close> that the stream format uses, and the inputs at which the
  theorems below are instantiated. The parser returns the decimal value itself, where
  \<open>float()\<close> returns the binary64 value nearest to it.
\<close>

definition digit_val :: "char \<Rightarrow> nat option" where
  "digit_val c = map_of (zip ''0123456789'' [0, 1, 2, 3, 4, 5, 6, 7, 8, 9]) c"

fun digits_val :: "nat \<Rightarrow> string \<Rightarrow> nat option" where
  "digits_val acc [] = Some acc"
| "digits_val acc (c # cs) =
     (case digit_val c of None \<Rightarrow> None | Some d \<Rightarrow> digits_val (10 * acc + d) cs)"

definition decimal_float :: "string \<Rightarrow> pyfloat option" where
  "decimal_float s =
     (case split_str CHR ''.'' s of
        [a] \<Rightarrow> (if a = [] then None else map_option (\<lambda>n. Fin (real n)) (digits_val 0 a))
      | [a, b] \<Rightarrow>
          (if a = [] \<and> b = [] then None
           else map_option (\<lambda>n. Fin (real n / 10 ^ length b)) (digits_val 0 (a @ b)))
      | _ \<Rightarrow> None)"

definition red_corner_palette :: palette where
  "red_corner_palette v u = (if v = 0 \<and> u = 0 then (255, 0, 0) else (0, 0, 0))"

definition black_palette :: palette where
  "black_palette v u = black"

definition black_image :: image where
  "black_image = np_zeros 66 100"

definition grey_opencv :: opencv where
  "grey_opencv = \<lparr>RGB2HSV = (\<lambda>c. (0, 0, fst c)), RGB2LAB = (\<lambda>c. (fst c, 128, 128))\<rparr>"

definition overlong_stream :: string where
  "overlong_stream = join_str CHR '','' (replicate 6600 ''0.01:0.99'' @ [''x''])"

definition no_files :: files where
  "no_files = Map.empty"

definition same_image :: "image \<Rightarrow> image" where
  "same_image img = img"

text \<open>
  The distance of the \<open>rgb\<close> row of the specification's table: the Euclidean distance
  over the signed channel differences.
\<close>

definition euclid_rgb :: "colour \<Rightarrow> colour \<Rightarrow> real" where
  "euclid_rgb p t =
     (case p of (p0, p1, p2) \<Rightarrow> case t of (t0, t1, t2) \<Rightarrow>
        let dr = int (unat p0) - int (unat t0);
            dg = int (unat p1) - int (unat t1);
            db = int (unat p2) - int (unat t2)
        in sqrt (real_of_int (dr\<^sup>2 + dg\<^sup>2 + db\<^sup>2)))"

text \<open>The list that the encoder joins, for a source of the fixed shape.\<close>

definition stream_tokens :: "image \<Rightarrow> palette \<Rightarrow> (colour \<Rightarrow> palette \<Rightarrow> nat \<times> nat) \<Rightarrow> string list" where
  "stream_tokens src pal alg =
     concat (map (\<lambda>i. map (\<lambda>j. uv_token (alg (px src j i) pal)) (rev [0..<66])) [0..<100])"

text \<open>
  The colour that the decoder writes for an entry, the preview array after the first
  \<open>n\<close> writes (before the flip), an entry whose first two colon-separated fields are
  floats between 0 and 1 (the coordinates of the stream format lie in 0.01 to 0.99),
  and an entry that lacks a second field or whose first or second field \<open>float()\<close>
  rejects.
\<close>

definition pair_colour :: "(string \<Rightarrow> pyfloat option) \<Rightarrow> palette \<Rightarrow> string \<Rightarrow> colour" where
  "pair_colour f pal e = (case decode_pair f pal e of Inl _ \<Rightarrow> black | Inr c \<Rightarrow> c)"

definition filled :: "(string \<Rightarrow> pyfloat option) \<Rightarrow> palette \<Rightarrow> string list \<Rightarrow> nat \<Rightarrow> image" where
  "filled f pal uv n =
     \<lparr>height = 66, width = 100,
      px = (\<lambda>j i. if j < 66 \<and> i * 66 + j < n then pair_colour f pal (uv ! (i * 66 + j)) else black)\<rparr>"

definition well_formed_pair :: "(string \<Rightarrow> pyfloat option) \<Rightarrow> string \<Rightarrow> bool" where
  "well_formed_pair f e =
     (case split_str CHR '':'' e of
        a0 # a1 # _ \<Rightarrow>
          (case f a0 of
             Some (Fin x) \<Rightarrow>
               (case f a1 of
                  Some (Fin y) \<Rightarrow> 0 \<le> x \<and> x \<le> 1 \<and> 0 \<le> y \<and> y \<le> 1
                | _ \<Rightarrow> False)
           | _ \<Rightarrow> False)
      | _ \<Rightarrow> False)"

definition malformed_pair :: "(string \<Rightarrow> pyfloat option) \<Rightarrow> string \<Rightarrow> bool" where
  "malformed_pair f e =
     (case split_str CHR '':'' e of
        a0 # a1 # _ \<Rightarrow> f a0 = None \<or> f a1 = None
      | _ \<Rightarrow> True)"

text \<open>An entry that is two floats with a colon between them, and nothing else.\<close>

definition two_floats :: "(string \<Rightarrow> pyfloat option) \<Rightarrow> string \<Rightarrow> bool" where
  "two_floats f e =
     (case split_str CHR '':'' e of
        [a0, a1] \<Rightarrow> (case f a0 of None \<Rightarrow> False | Some x \<Rightarrow> (case f a1 of None \<Rightarrow> False | Some y \<Rightarrow> True))
      | _ \<Rightarrow> False)"




text \<open>The distance that the scan computes at a cell \<open>(v, u)\<close>.\<close>

definition cell_dist :: "(colour \<Rightarrow> real) \<Rightarrow> palette \<Rightarrow> nat \<times> nat \<Rightarrow> real" where
  "cell_dist f pal vu = f (pal (fst vu) (snd vu))"

section \<open>The quantizer\<close>

subsection \<open>The scan returns the first cell of least distance\<close>

lemma cells_upt: "cells = map (\<lambda>k. (k div 7, k mod 7)) [0..<42]"
  by code_simp

lemma length_cells: "length cells = 42"
  by (simp add: cells_upt)

lemma cells_nth: "k < 42 \<Longrightarrow> cells ! k = (k div 7, k mod 7)"
  by (simp add: cells_upt)

lemma scan_step_None:
  "scan_step f pal (None, b) vu = (Some (cell_dist f pal vu), snd vu, fst vu)"
  by (simp add: scan_step_def cell_dist_def split: prod.split)

lemma scan_step_Some:
  "scan_step f pal (Some m, b) vu =
     (if cell_dist f pal vu < m then (Some (cell_dist f pal vu), snd vu, fst vu) else (Some m, b))"
  by (simp add: scan_step_def cell_dist_def Let_def split: prod.split)

lemma scan_foldl:
  assumes "xs \<noteq> []"
  shows "\<exists>k<length xs.
           foldl (scan_step f pal) (None, b) xs = (Some (cell_dist f pal (xs ! k)), snd (xs ! k), fst (xs ! k))
         \<and> (\<forall>m<length xs. cell_dist f pal (xs ! k) \<le> cell_dist f pal (xs ! m))
         \<and> (\<forall>m<k. cell_dist f pal (xs ! k) < cell_dist f pal (xs ! m))"
  using assms
proof (induction xs rule: rev_induct)
  case Nil
  then show ?case by simp
next
  case (snoc x xs)
  show ?case
  proof (cases "xs = []")
    case True
    then show ?thesis by (simp add: scan_step_None)
  next
    case False
    from snoc.IH [OF False] obtain k where k: "k < length xs"
      and st: "foldl (scan_step f pal) (None, b) xs = (Some (cell_dist f pal (xs ! k)), snd (xs ! k), fst (xs ! k))"
      and le: "\<And>m. m < length xs \<Longrightarrow> cell_dist f pal (xs ! k) \<le> cell_dist f pal (xs ! m)"
      and lt: "\<And>m. m < k \<Longrightarrow> cell_dist f pal (xs ! k) < cell_dist f pal (xs ! m)"
      by blast
    let ?ys = "xs @ [x]"
    show ?thesis
    proof (cases "cell_dist f pal x < cell_dist f pal (xs ! k)")
      case True
      have a: "foldl (scan_step f pal) (None, b) ?ys = (Some (cell_dist f pal (?ys ! length xs)), snd (?ys ! length xs), fst (?ys ! length xs))"
        using True by (simp add: st scan_step_Some)
      have b: "cell_dist f pal (?ys ! length xs) \<le> cell_dist f pal (?ys ! m)" if "m < length ?ys" for m
      proof (cases "m < length xs")
        case True
        with le [of m] \<open>cell_dist f pal x < cell_dist f pal (xs ! k)\<close> show ?thesis
          by (simp add: nth_append)
      next
        case False
        with that have "m = length xs" by simp
        then show ?thesis by simp
      qed
      have c: "cell_dist f pal (?ys ! length xs) < cell_dist f pal (?ys ! m)" if "m < length xs" for m
        using le [of m] that True by (simp add: nth_append)
      have "length xs < length ?ys" by simp
      with a b c show ?thesis by blast
    next
      case False
      have kk: "?ys ! k = xs ! k" using k by (simp add: nth_append)
      have a: "foldl (scan_step f pal) (None, b) ?ys = (Some (cell_dist f pal (?ys ! k)), snd (?ys ! k), fst (?ys ! k))"
        using False by (simp add: st scan_step_Some kk)
      have b: "cell_dist f pal (?ys ! k) \<le> cell_dist f pal (?ys ! m)" if "m < length ?ys" for m
      proof (cases "m < length xs")
        case True
        with le [of m] show ?thesis unfolding kk by (simp add: nth_append)
      next
        case F: False
        with that have "m = length xs" by simp
        then show ?thesis using False by (simp add: kk)
      qed
      have c: "cell_dist f pal (?ys ! k) < cell_dist f pal (?ys ! m)" if "m < k" for m
      proof -
        have "m < length xs" using that k by simp
        then show ?thesis using lt [of m] that unfolding kk by (simp add: nth_append)
      qed
      have "k < length ?ys" using k by simp
      with a b c show ?thesis by blast
    qed
  qed
qed

lemma closest_cell_first_min:
  "\<exists>u v. closest_cell f pal = (u, v) \<and> u < 7 \<and> v < 6
     \<and> (\<forall>v'<6. \<forall>u'<7. f (pal v u) \<le> f (pal v' u'))
     \<and> (\<forall>v'<6. \<forall>u'<7. 7 * v' + u' < 7 * v + u \<longrightarrow> f (pal v u) < f (pal v' u'))"
proof -
  have ne: "cells \<noteq> []" using length_cells by auto
  from scan_foldl [OF ne, of f pal "(0, 0)"] obtain k where k: "k < 42"
    and st: "foldl (scan_step f pal) (None, 0, 0) cells = (Some (cell_dist f pal (cells ! k)), snd (cells ! k), fst (cells ! k))"
    and le: "\<And>m. m < 42 \<Longrightarrow> cell_dist f pal (cells ! k) \<le> cell_dist f pal (cells ! m)"
    and lt: "\<And>m. m < k \<Longrightarrow> cell_dist f pal (cells ! k) < cell_dist f pal (cells ! m)"
    unfolding length_cells by blast
  let ?u = "k mod 7" and ?v = "k div 7"
  have ck: "cell_dist f pal (cells ! k) = f (pal ?v ?u)"
    using k by (simp add: cells_nth cell_dist_def)
  have cm: "cell_dist f pal (cells ! (7 * v' + u')) = f (pal v' u')" if "v' < 6" "u' < 7" for v' u'
  proof -
    have "7 * v' + u' < 42" using that by simp
    then show ?thesis using that by (simp add: cells_nth cell_dist_def)
  qed
  have 1: "closest_cell f pal = (?u, ?v)"
    using k by (simp add: closest_cell_def st cells_nth)
  have 2: "?u < 7" "?v < 6" using k by simp_all
  have 3: "f (pal ?v ?u) \<le> f (pal v' u')" if "v' < 6" "u' < 7" for v' u'
  proof -
    have "7 * v' + u' < 42" using that by simp
    from le [OF this] show ?thesis using that by (simp add: ck cm)
  qed
  have 4: "f (pal ?v ?u) < f (pal v' u')" if "v' < 6" "u' < 7" "7 * v' + u' < 7 * ?v + ?u" for v' u'
  proof -
    have "7 * v' + u' < k" using that by simp
    from lt [OF this] show ?thesis using that by (simp add: ck cm)
  qed
  show ?thesis using 1 2 3 4 by blast
qed

lemma algorithm_closest_cell:
  "algorithm cv m pixel pal = closest_cell (distance cv m (rev_channels pixel)) pal"
  by (cases m)
     (simp_all add: find_closest_colour_perceptual_def find_closest_colour_rgb_def
        find_closest_colour_hsv_def find_closest_colour_lab_def find_closest_colour_weighted_def
        find_closest_colour_simple_def find_closest_colour_perceptual_hsv_def)


text \<open>
  C5. Every function of the family is the scan of the 42 cells in the order
  \<open>v = 0..5\<close> outer, \<open>u = 0..6\<close> inner, over the whole list. It returns a cell of
  least distance, every cell scanned before it has a strictly greater distance, and
  it returns cell (0, 0) when all 42 distances are equal.
\<close>

theorem quantizer_first_minimum:
  "algorithm cv m pixel pal
     = snd (foldl (scan_step (distance cv m (rev_channels pixel)) pal) (None, 0, 0) cells)
   \<and> cells = map (\<lambda>k. (k div 7, k mod 7)) [0..<42]
   \<and> (\<exists>u v. algorithm cv m pixel pal = (u, v) \<and> u < 7 \<and> v < 6
        \<and> (\<forall>v'<6. \<forall>u'<7. distance cv m (rev_channels pixel) (pal v u)
                                \<le> distance cv m (rev_channels pixel) (pal v' u'))
        \<and> (\<forall>v'<6. \<forall>u'<7. 7 * v' + u' < 7 * v + u \<longrightarrow>
               distance cv m (rev_channels pixel) (pal v u)
                 < distance cv m (rev_channels pixel) (pal v' u')))
   \<and> ((\<forall>v'<6. \<forall>u'<7. distance cv m (rev_channels pixel) (pal v' u')
                            = distance cv m (rev_channels pixel) (pal 0 0))
        \<longrightarrow> algorithm cv m pixel pal = (0, 0))"
proof -
  let ?D = "distance cv m (rev_channels pixel)"
  have a: "algorithm cv m pixel pal = snd (foldl (scan_step ?D pal) (None, 0, 0) cells)"
    by (simp add: algorithm_closest_cell closest_cell_def)
  from closest_cell_first_min [of ?D pal] obtain u v where
    r: "closest_cell ?D pal = (u, v)" and u: "u < 7" and v: "v < 6"
    and le: "\<forall>v'<6. \<forall>u'<7. ?D (pal v u) \<le> ?D (pal v' u')"
    and lt: "\<forall>v'<6. \<forall>u'<7. 7 * v' + u' < 7 * v + u \<longrightarrow> ?D (pal v u) < ?D (pal v' u')"
    by blast
  have b: "\<exists>u v. algorithm cv m pixel pal = (u, v) \<and> u < 7 \<and> v < 6
        \<and> (\<forall>v'<6. \<forall>u'<7. ?D (pal v u) \<le> ?D (pal v' u'))
        \<and> (\<forall>v'<6. \<forall>u'<7. 7 * v' + u' < 7 * v + u \<longrightarrow> ?D (pal v u) < ?D (pal v' u'))"
    using r u v le lt unfolding algorithm_closest_cell by blast
  have c: "algorithm cv m pixel pal = (0, 0)"
    if eq: "\<forall>v'<6. \<forall>u'<7. ?D (pal v' u') = ?D (pal 0 0)"
  proof -
    have "\<not> 7 * 0 + 0 < 7 * v + u"
    proof
      assume "7 * 0 + 0 < 7 * v + u"
      with lt have "?D (pal v u) < ?D (pal 0 0)" by (metis zero_less_numeral)
      moreover have "?D (pal v u) = ?D (pal 0 0)" using eq u v by blast
      ultimately show False by simp
    qed
    then have "u = 0" "v = 0" by simp_all
    then show ?thesis using r by (simp add: algorithm_closest_cell)
  qed
  show ?thesis using a b c cells_upt by blast
qed

subsection \<open>The rgb distance\<close>

lemma rev_channels_twice: "rev_channels (rev_channels c) = c"
  by (cases c) (simp add: rev_channels_def)

lemma cv_norm_nonneg: "0 \<le> cv_norm c"
  by (cases c) (simp add: cv_norm_def)

lemma cv_norm_eq_0: "cv_norm c = 0 \<longleftrightarrow> c = (0, 0, 0)"
proof (cases c)
  case (fields c0 c1 c2)
  have "cv_norm c = 0 \<longleftrightarrow> (unat c0)\<^sup>2 + (unat c1)\<^sup>2 + (unat c2)\<^sup>2 = 0"
    unfolding fields cv_norm_def by (simp only: prod.case real_sqrt_eq_zero_cancel_iff of_nat_eq_0_iff)
  also have "\<dots> \<longleftrightarrow> c0 = 0 \<and> c1 = 0 \<and> c2 = 0"
    by (simp add: unat_eq_0)
  finally show ?thesis by (simp add: fields)
qed

lemma np_sub_eq_0: "np_sub a b = (0, 0, 0) \<longleftrightarrow> a = b"
  by (cases a, cases b) (simp add: np_sub_def)

lemma dist_rgb_nonneg: "0 \<le> dist_rgb a b"
  by (simp add: dist_rgb_def cv_norm_nonneg)

lemma dist_rgb_eq_0: "dist_rgb a b = 0 \<longleftrightarrow> a = b"
  by (simp add: dist_rgb_def cv_norm_eq_0 np_sub_eq_0)

lemma cell_index_inj:
  fixes u v u' v' :: nat
  assumes "u < 7" "u' < 7" "7 * v + u = 7 * v' + u'"
  shows "u = u' \<and> v = v'"
proof -
  have "(7 * v + u) mod 7 = u" "(7 * v' + u') mod 7 = u'" using assms(1,2) by simp_all
  then have "u = u'" using assms(3) by simp
  then show ?thesis using assms(3) by simp
qed


subsection \<open>Evaluation on concrete palettes\<close>

lemma cells_list: "cells = [(0, 0), (0, 1), (0, 2), (0, 3), (0, 4), (0, 5), (0, 6), (1, 0), (1, 1),
  (1, 2), (1, 3), (1, 4), (1, 5), (1, 6), (2, 0), (2, 1), (2, 2), (2, 3),
  (2, 4), (2, 5), (2, 6), (3, 0), (3, 1), (3, 2), (3, 3), (3, 4), (3, 5),
  (3, 6), (4, 0), (4, 1), (4, 2), (4, 3), (4, 4), (4, 5), (4, 6), (5, 0),
  (5, 1), (5, 2), (5, 3), (5, 4), (5, 5), (5, 6)]"
  by code_simp

lemma unat_minus_255: "unat (- 255 :: 8 word) = 1"
  by code_simp

lemma dist_rgb_black_red: "dist_rgb (0, 0, 0) (255, 0, 0) = 1"
  by (simp add: dist_rgb_def np_sub_def cv_norm_def unat_minus_255)

lemma dist_rgb_same: "dist_rgb c c = 0"
  by (simp add: dist_rgb_eq_0)

lemma dist_rgb_not_neg: "(dist_rgb a b < 0) = False"
  using dist_rgb_nonneg [of a b] by simp

lemma black_on_red_corner:
  "find_closest_colour_rgb (0, 0, 0) red_corner_palette = (1, 0)"
  by (simp add: find_closest_colour_rgb_def closest_cell_def cells_list scan_step_def
      red_corner_palette_def rev_channels_def dist_rgb_black_red dist_rgb_same)

lemma red_on_red_corner:
  "find_closest_colour_rgb (0, 0, 255) red_corner_palette = (0, 0)"
  by (simp add: find_closest_colour_rgb_def closest_cell_def cells_list scan_step_def
      red_corner_palette_def rev_channels_def dist_rgb_same dist_rgb_not_neg)

theorem quantizer_first_minimum_witness:
  "algorithm grey_opencv Rgb (0, 0, 0) red_corner_palette = (1, 0)
   \<and> distance grey_opencv Rgb (rev_channels (0, 0, 0)) (red_corner_palette 0 1)
       < distance grey_opencv Rgb (rev_channels (0, 0, 0)) (red_corner_palette 0 0)
   \<and> algorithm grey_opencv Hsv (0, 0, 255) black_palette = (0, 0)"
proof -
  note q1 = quantizer_first_minimum [of grey_opencv Rgb "(0, 0, 0)" red_corner_palette,
      THEN conjunct2, THEN conjunct2, THEN conjunct1]
  note q2 = quantizer_first_minimum [of grey_opencv Hsv "(0, 0, 255)" black_palette,
      THEN conjunct2, THEN conjunct2, THEN conjunct2]
  have e: "algorithm grey_opencv Rgb (0, 0, 0) red_corner_palette = (1, 0)"
    by (simp add: black_on_red_corner)
  obtain u v where uv: "algorithm grey_opencv Rgb (0, 0, 0) red_corner_palette = (u, v)"
    and lt: "\<forall>v'<6. \<forall>u'<7. 7 * v' + u' < 7 * v + u \<longrightarrow>
               distance grey_opencv Rgb (rev_channels (0, 0, 0)) (red_corner_palette v u)
                 < distance grey_opencv Rgb (rev_channels (0, 0, 0)) (red_corner_palette v' u')"
    using q1 by (elim exE conjE) (rule that)
  from uv e have u: "u = 1" and v: "v = 0" by simp_all
  from lt [rule_format, of 0 0] have l:
    "distance grey_opencv Rgb (rev_channels (0, 0, 0)) (red_corner_palette 0 1)
       < distance grey_opencv Rgb (rev_channels (0, 0, 0)) (red_corner_palette 0 0)"
    unfolding u v by simp
  have "\<forall>v'<6. \<forall>u'<7. distance grey_opencv Hsv (rev_channels (0, 0, 255)) (black_palette v' u')
                            = distance grey_opencv Hsv (rev_channels (0, 0, 255)) (black_palette 0 0)"
    by (simp add: black_palette_def)
  from q2 [THEN mp, OF this] have "algorithm grey_opencv Hsv (0, 0, 255) black_palette = (0, 0)" .
  with e l show ?thesis by (intro conjI)
qed

subsection \<open>Self-quantization\<close>

text \<open>
  C6. Quantizing the colour of cell \<open>(u, v)\<close> of a palette against that palette with
  the \<open>rgb\<close> function returns the first cell in scan order that holds the same colour:
  the distance is zero exactly on equal colours. It is \<open>(u, v)\<close> itself when no cell
  scanned earlier holds that colour, in particular when the 42 colours differ from
  each other. On the all-black palette the colour of cell \<open>(1, 0)\<close> is matched to
  cell \<open>(0, 0)\<close>.
\<close>

theorem rgb_self_match_earliest:
  assumes "u < 7" "v < 6"
  shows "\<exists>u' v'. find_closest_colour_rgb (rev_channels (pal v u)) pal = (u', v') \<and> u' < 7 \<and> v' < 6
      \<and> pal v' u' = pal v u
      \<and> (\<forall>y<6. \<forall>x<7. pal y x = pal v u \<longrightarrow> 7 * v' + u' \<le> 7 * y + x)
      \<and> ((\<forall>y<6. \<forall>x<7. 7 * y + x < 7 * v + u \<longrightarrow> pal y x \<noteq> pal v u) \<longrightarrow> u' = u \<and> v' = v)"
proof -
  let ?c = "pal v u"
  let ?D = "dist_rgb ?c"
  obtain u' v' where r: "closest_cell ?D pal = (u', v')" and u': "u' < 7" and v': "v' < 6"
    and le: "\<forall>y<6. \<forall>x<7. ?D (pal v' u') \<le> ?D (pal y x)"
    and lt: "\<forall>y<6. \<forall>x<7. 7 * y + x < 7 * v' + u' \<longrightarrow> ?D (pal v' u') < ?D (pal y x)"
    using closest_cell_first_min [of ?D pal] by (elim exE conjE) (rule that)
  have "?D (pal v' u') \<le> ?D ?c" using le [rule_format, OF assms(2) assms(1)] .
  then have "?D (pal v' u') = 0"
    using dist_rgb_nonneg [of ?c "pal v' u'"] by (simp add: dist_rgb_same)
  then have same: "pal v' u' = ?c" by (simp add: dist_rgb_eq_0)
  have first: "7 * v' + u' \<le> 7 * y + x" if "y < 6" "x < 7" "pal y x = ?c" for y x
  proof (rule ccontr)
    assume "\<not> 7 * v' + u' \<le> 7 * y + x"
    then have "7 * y + x < 7 * v' + u'" by simp
    from lt [rule_format, OF that(1) that(2) this] show False
      by (simp add: same that(3))
  qed
  have uniq: "u' = u \<and> v' = v" if no: "\<forall>y<6. \<forall>x<7. 7 * y + x < 7 * v + u \<longrightarrow> pal y x \<noteq> ?c"
  proof -
    have a: "7 * v' + u' \<le> 7 * v + u" using first [OF assms(2) assms(1)] by simp
    have "\<not> 7 * v' + u' < 7 * v + u"
      using no [rule_format, OF v' u'] same by blast
    with a have "7 * v' + u' = 7 * v + u" by simp
    from cell_index_inj [OF u' assms(1) this] show ?thesis .
  qed
  have "find_closest_colour_rgb (rev_channels ?c) pal = (u', v')"
    by (simp add: find_closest_colour_rgb_def rev_channels_twice r)
  with u' v' same first uniq show ?thesis by blast
qed

theorem rgb_self_match_earliest_witness:
  "find_closest_colour_rgb (rev_channels (red_corner_palette 0 1)) red_corner_palette = (1, 0)"
proof -
  have a: "(1::nat) < 7" and b: "(0::nat) < 6" by simp_all
  obtain u' v' where r: "find_closest_colour_rgb (rev_channels (red_corner_palette 0 1)) red_corner_palette = (u', v')"
    and imp: "(\<forall>y<6. \<forall>x<7. 7 * y + x < 7 * 0 + 1 \<longrightarrow> red_corner_palette y x \<noteq> red_corner_palette 0 1)
                \<longrightarrow> u' = 1 \<and> v' = 0"
    using rgb_self_match_earliest [OF a b, of red_corner_palette] by (elim exE conjE) (rule that)
  have "\<forall>y<6. \<forall>x<7. 7 * y + x < 7 * 0 + 1 \<longrightarrow> red_corner_palette y x \<noteq> red_corner_palette 0 1"
    by (simp add: red_corner_palette_def)
  with imp have "u' = 1 \<and> v' = 0" by (rule mp)
  with r show ?thesis by simp
qed

theorem rgb_self_match_counterexample:
  "find_closest_colour_rgb (rev_channels (black_palette 0 1)) black_palette \<noteq> (1, 0)"
  by (simp add: find_closest_colour_rgb_def closest_cell_def cells_list scan_step_def
      black_palette_def black_def rev_channels_def dist_rgb_same dist_rgb_not_neg)

subsection \<open>Wrap-around\<close>

lemma unat_10_minus_20: "unat (- 10 :: 8 word) = 246"
  by code_simp

text \<open>
  C2. The \<open>rgb\<close> distance is computed on \<open>uint8\<close> arrays, whose difference wraps: for the
  pixel (10, 0, 0) and the palette colour (20, 0, 0) it is 246, where the Euclidean
  distance over the signed differences is 10.
\<close>

theorem rgb_distance_wraps_around:
  "dist_rgb (10, 0, 0) (20, 0, 0) = 246 \<and> euclid_rgb (10, 0, 0) (20, 0, 0) = 10"
  by (simp add: dist_rgb_def np_sub_def cv_norm_def euclid_rgb_def unat_10_minus_20)

section \<open>Splitting and joining\<close>

lemma split_str_not_Nil: "split_str c s \<noteq> []"
  by (induction s) (auto split: list.splits)

lemma split_str_no_sep: "c \<notin> set x \<Longrightarrow> split_str c x = [x]"
  by (induction x) auto

lemma split_str_append:
  "c \<notin> set x \<Longrightarrow> split_str c (x @ c # rest) = x # split_str c rest"
  by (induction x) auto

lemma split_join:
  "xs \<noteq> [] \<Longrightarrow> \<forall>x\<in>set xs. c \<notin> set x \<Longrightarrow> split_str c (join_str c xs) = xs"
proof (induction c xs rule: join_str.induct)
  case (1 c)
  then show ?case by simp
next
  case (2 c x)
  then show ?case by (simp add: split_str_no_sep)
next
  case (3 c x y ys)
  then show ?case by (simp add: split_str_append)
qed

lemma split_str_parts_no_sep: "x \<in> set (split_str c s) \<Longrightarrow> c \<notin> set x"
proof (induction s arbitrary: x)
  case Nil
  then show ?case by simp
next
  case (Cons a s)
  show ?case
  proof (cases "a = c")
    case True
    with Cons show ?thesis by auto
  next
    case False
    obtain w ws where w: "split_str c s = w # ws"
      using split_str_not_Nil [of c s] by (cases "split_str c s") auto
    with Cons.prems False have "x = a # w \<or> x \<in> set ws" by simp
    then show ?thesis
    proof
      assume "x = a # w"
      moreover have "c \<notin> set w" using Cons.IH [of w] w by simp
      ultimately show ?thesis using False by auto
    next
      assume "x \<in> set ws"
      then show ?thesis using Cons.IH [of x] w by simp
    qed
  qed
qed

lemma concat_nth_uniform:
  "\<forall>xs\<in>set xss. length xs = n \<Longrightarrow> k < n * length xss \<Longrightarrow> concat xss ! k = xss ! (k div n) ! (k mod n)"
proof (induction xss arbitrary: k)
  case Nil
  then show ?case by simp
next
  case (Cons a xss)
  have la: "length a = n" using Cons.prems(1) by simp
  have n: "0 < n" using Cons.prems(2) by (cases n) auto
  show ?case
  proof (cases "k < n")
    case True
    then show ?thesis by (simp add: nth_append la)
  next
    case False
    then have k: "k = (k - n) + n" by simp
    have "k - n < n * length xss" using Cons.prems(2) False by (simp add: algebra_simps)
    with Cons.IH [of "k - n"] Cons.prems(1)
    have ih: "concat xss ! (k - n) = xss ! ((k - n) div n) ! ((k - n) mod n)" by simp
    have d: "k div n = Suc ((k - n) div n)" using False n
      by (metis k div_add_self2 less_numeral_extra(3) Suc_eq_plus1)
    have m: "k mod n = (k - n) mod n" using False
      by (metis k mod_add_self2)
    show ?thesis using False by (simp add: nth_append la ih d m)
  qed
qed

lemma length_concat_uniform:
  "\<forall>xs\<in>set xss. length xs = n \<Longrightarrow> length (concat xss) = n * length xss"
  by (induction xss) simp_all



section \<open>The encoder\<close>

subsection \<open>Tokens\<close>

lemma clip_u_pre: "np_clip (real (np_clip u 0 6) / 6) (1 / 100) (99 / 100) = np_clip (real u / 6) (1 / 100) (99 / 100)"
  by (cases "u \<le> 6") (simp_all add: np_clip_def min_def max_def)

lemma clip_v_pre: "np_clip (1 - real (np_clip v 0 5) / 5) (1 / 100) (99 / 100) = np_clip (1 - real v / 5) (1 / 100) (99 / 100)"
  by (cases "v \<le> 5") (simp_all add: np_clip_def min_def max_def)

lemma uv_token_spec:
  "uv_token (u, v) = fmt2 (np_clip (real u / 6) (1 / 100) (99 / 100)) @ '':''
                       @ fmt2 (np_clip (1 - real v / 5) (1 / 100) (99 / 100))"
  by (simp add: uv_token_def Let_def clip_u_pre clip_v_pre)

lemma u_texts:
  "map (\<lambda>u. fmt2 (np_clip (real u / 6) (1 / 100) (99 / 100))) [0, 1, 2, 3, 4, 5, 6]
     = [''0.01'', ''0.17'', ''0.33'', ''0.50'', ''0.67'', ''0.83'', ''0.99'']"
  by (simp add: np_clip_def fmt2_def round_half_even_def digit_char_def str_nat.simps)

lemma v_texts:
  "map (\<lambda>v. fmt2 (np_clip (1 - real v / 5) (1 / 100) (99 / 100))) [0, 1, 2, 3, 4, 5]
     = [''0.99'', ''0.80'', ''0.60'', ''0.40'', ''0.20'', ''0.01'']"
  by (simp add: np_clip_def fmt2_def round_half_even_def digit_char_def str_nat.simps)

text \<open>
  C4. The token of a cell \<open>(u, v)\<close> is \<open>clamp(u/6, 0.01, 0.99)\<close>, a colon and
  \<open>clamp(1 - v/5, 0.01, 0.99)\<close>, each written with two decimals: the seven texts for
  \<open>u\<close> and the six for \<open>v\<close> are listed. Cell (6, 5) gives \<open>0.99:0.01\<close>, cell
  (0, 0) gives \<open>0.01:0.99\<close>, and so does a pure red pixel quantized with \<open>rgb\<close> on
  the palette whose cell (0, 0) is red and whose other cells are black.
\<close>

theorem token_of_cell:
  "uv_token (u, v) = fmt2 (np_clip (real u / 6) (1 / 100) (99 / 100)) @ '':''
                       @ fmt2 (np_clip (1 - real v / 5) (1 / 100) (99 / 100))
   \<and> map (\<lambda>u. fmt2 (np_clip (real u / 6) (1 / 100) (99 / 100))) [0, 1, 2, 3, 4, 5, 6]
       = [''0.01'', ''0.17'', ''0.33'', ''0.50'', ''0.67'', ''0.83'', ''0.99'']
   \<and> map (\<lambda>v. fmt2 (np_clip (1 - real v / 5) (1 / 100) (99 / 100))) [0, 1, 2, 3, 4, 5]
       = [''0.99'', ''0.80'', ''0.60'', ''0.40'', ''0.20'', ''0.01'']
   \<and> uv_token (6, 5) = ''0.99:0.01''
   \<and> uv_token (0, 0) = ''0.01:0.99''
   \<and> uv_token (find_closest_colour_rgb (0, 0, 255) red_corner_palette) = ''0.01:0.99''"
proof -
  have a: "uv_token (6, 5) = ''0.99:0.01''"
    by (simp add: uv_token_spec np_clip_def fmt2_def round_half_even_def digit_char_def str_nat.simps)
  have b: "uv_token (0, 0) = ''0.01:0.99''"
    by (simp add: uv_token_spec np_clip_def fmt2_def round_half_even_def digit_char_def str_nat.simps)
  have c: "uv_token (find_closest_colour_rgb (0, 0, 255) red_corner_palette) = ''0.01:0.99''"
    by (simp only: red_on_red_corner b)
  show ?thesis
    using uv_token_spec [of u v] u_texts v_texts a b c by (intro conjI)
qed

subsection \<open>The stream\<close>

lemma digit_char_in: "digit_char n \<in> set ''0123456789''"
proof -
  have "n mod 10 < length ''0123456789''" by simp
  then show ?thesis unfolding digit_char_def by (rule nth_mem)
qed

lemma str_nat_chars: "set (str_nat n) \<subseteq> set ''0123456789''"
proof (induction n rule: str_nat.induct)
  case (1 n)
  show ?case
  proof (cases "n < 10")
    case True
    then show ?thesis using digit_char_in [of n] by (subst str_nat.simps) simp
  next
    case False
    then show ?thesis using 1 digit_char_in [of n] by (subst str_nat.simps) simp
  qed
qed

lemma fmt2_no_comma: "CHR '','' \<notin> set (fmt2 x)"
proof -
  have "CHR '','' \<notin> set ''0123456789''" by simp
  then have a: "CHR '','' \<notin> set (str_nat n)" for n using str_nat_chars [of n] by blast
  have b: "digit_char n \<noteq> CHR '',''" for n using digit_char_in [of n] by auto
  show ?thesis by (simp add: fmt2_def Let_def a b b [THEN not_sym])
qed

lemma uv_token_no_comma: "CHR '','' \<notin> set (uv_token uv)"
  by (cases uv) (simp add: uv_token_spec fmt2_no_comma)

lemma length_stream_tokens: "length (stream_tokens src pal alg) = 6600"
proof -
  have "length (stream_tokens src pal alg) = 66 * length (map (\<lambda>i. map (\<lambda>j. uv_token (alg (px src j i) pal)) (rev [0..<66])) [0..<100])"
    unfolding stream_tokens_def by (rule length_concat_uniform) auto
  then show ?thesis by simp
qed

lemma stream_tokens_nth:
  assumes "k < 6600"
  shows "stream_tokens src pal alg ! k = uv_token (alg (px src (65 - k mod 66) (k div 66)) pal)"
proof -
  let ?xss = "map (\<lambda>i. map (\<lambda>j. uv_token (alg (px src j i) pal)) (rev [0..<66])) [0..<100]"
  have u: "\<forall>xs\<in>set ?xss. length xs = 66" by auto
  have k: "k < 66 * length ?xss" using assms by simp
  have d: "k div 66 < 100" using assms by simp
  have m: "k mod 66 < 66" by simp
  have "stream_tokens src pal alg ! k = ?xss ! (k div 66) ! (k mod 66)"
    unfolding stream_tokens_def by (rule concat_nth_uniform [OF u k])
  also have "\<dots> = uv_token (alg (px src (rev [0..<66] ! (k mod 66)) (k div 66)) pal)"
    using d m by simp
  also have "rev [0..<66] ! (k mod 66) = 65 - k mod 66"
    using m by (simp add: rev_nth)
  finally show ?thesis .
qed

lemma stream_tokens_no_comma: "\<forall>x\<in>set (stream_tokens src pal alg). CHR '','' \<notin> set x"
  by (auto simp: stream_tokens_def uv_token_no_comma)

lemma serialize_stream:
  assumes "width src = 100" "height src = 66"
  shows "fst (serialize_image_to_uv rs src pal alg fs) = join_str CHR '','' (stream_tokens src pal alg)"
  using assms by (simp add: serialize_image_to_uv_def Let_def stream_tokens_def)

lemma split_serialize:
  assumes "width src = 100" "height src = 66"
  shows "split_str CHR '','' (fst (serialize_image_to_uv rs src pal alg fs)) = stream_tokens src pal alg"
proof -
  have "stream_tokens src pal alg \<noteq> []" using length_stream_tokens [of src pal alg] by auto
  then show ?thesis
    unfolding serialize_stream [OF assms]
    by (rule split_join) (rule stream_tokens_no_comma)
qed

text \<open>
  C3. For a source grid of 100 columns and 66 rows the stream splits at the commas
  into exactly 6600 entries, and entry \<open>k\<close> is the token of the pixel in column
  \<open>k div 66\<close> and row \<open>65 - k mod 66\<close>: columns 0 to 99 in the outer loop, rows 65
  down to 0 in the inner loop.
\<close>

theorem stream_entries:
  assumes "width src = 100" "height src = 66"
  shows "length (split_str CHR '','' (fst (serialize_image_to_uv rs src pal alg fs))) = 6600
    \<and> (\<forall>k<6600. split_str CHR '','' (fst (serialize_image_to_uv rs src pal alg fs)) ! k
                    = uv_token (alg (px src (65 - k mod 66) (k div 66)) pal))
    \<and> split_str CHR '','' (fst (serialize_image_to_uv rs src pal alg fs))
        = concat (map (\<lambda>i. map (\<lambda>j. uv_token (alg (px src j i) pal)) (rev [0..<66])) [0..<100])"
  unfolding split_serialize [OF assms]
  by (simp add: length_stream_tokens stream_tokens_nth) (simp add: stream_tokens_def)

theorem stream_entries_witness:
  "length (split_str CHR '','' (fst (serialize_image_to_uv same_image black_image red_corner_palette
       find_closest_colour_rgb no_files))) = 6600
   \<and> split_str CHR '','' (fst (serialize_image_to_uv same_image black_image red_corner_palette
       find_closest_colour_rgb no_files)) ! 0 = ''0.17:0.99''"
proof -
  have w: "width black_image = 100" and h: "height black_image = 66"
    by (simp_all add: black_image_def np_zeros_def)
  note t = stream_entries [OF w h, of same_image red_corner_palette find_closest_colour_rgb no_files]
  have p: "px black_image (65 - 0 mod 66) (0 div 66) = (0, 0, 0)"
    by (simp add: black_image_def np_zeros_def black_def)
  have u: "uv_token (1, 0) = ''0.17:0.99''"
    by (simp add: uv_token_spec np_clip_def fmt2_def round_half_even_def digit_char_def str_nat.simps)
  have "(0::nat) < 6600" by simp
  from t [THEN conjunct2, THEN conjunct1, rule_format, OF this]
  have "split_str CHR '','' (fst (serialize_image_to_uv same_image black_image red_corner_palette
       find_closest_colour_rgb no_files)) ! 0 = ''0.17:0.99''"
    unfolding p black_on_red_corner u .
  with t [THEN conjunct1] show ?thesis by (rule conjI)
qed

section \<open>Binary64 rounding\<close>

lemma round_half_even_error: "\<bar>of_int (round_half_even t) - t\<bar> \<le> 1 / 2"
proof -
  have "of_int \<lfloor>t\<rfloor> \<le> t" "t < of_int \<lfloor>t\<rfloor> + 1" by linarith+
  then show ?thesis by (auto simp: round_half_even_def Let_def)
qed

lemma quantum_bound:
  assumes "x \<noteq> 0"
  shows "2 powr (of_int (max \<lfloor>log 2 \<bar>x\<bar>\<rfloor> (- 1022)) - 52) \<le> \<bar>x\<bar> / 512 + 1 / 1024"
proof (cases "- 1022 \<le> \<lfloor>log 2 \<bar>x\<bar>\<rfloor>")
  case True
  then have m: "max \<lfloor>log 2 \<bar>x\<bar>\<rfloor> (- 1022) = \<lfloor>log 2 \<bar>x\<bar>\<rfloor>" by simp
  have pos: "0 < \<bar>x\<bar>" using assms by simp
  have "2 powr (of_int \<lfloor>log 2 \<bar>x\<bar>\<rfloor> - 52) \<le> 2 powr (log 2 \<bar>x\<bar> - 9)"
    by (rule powr_mono) (simp_all, linarith)
  also have "\<dots> = \<bar>x\<bar> / 2 powr 9" using pos by (simp add: powr_diff)
  also have "\<dots> = \<bar>x\<bar> / 512" by simp
  finally show ?thesis unfolding m by simp
next
  case False
  then have m: "max \<lfloor>log 2 \<bar>x\<bar>\<rfloor> (- 1022) = - 1022" by simp
  have "(2::real) powr (of_int (- 1022) - 52) \<le> 2 powr (- 10)"
    by (rule powr_mono) simp_all
  also have "\<dots> = 1 / 1024" by (simp add: powr_minus divide_simps)
  finally show ?thesis unfolding m by simp
qed

lemma round64_close:
  assumes "\<bar>x\<bar> \<le> 1024"
  shows "\<exists>r. round64 x = Fin r \<and> \<bar>r - x\<bar> \<le> \<bar>x\<bar> / 1024 + 1 / 2048"
proof (cases "x = 0")
  case True
  then show ?thesis by (simp add: round64_def)
next
  case False
  define q :: real where "q = 2 powr (of_int (max \<lfloor>log 2 \<bar>x\<bar>\<rfloor> (- 1022)) - 52)"
  define r :: real where "r = of_int (round_half_even (x / q)) * q"
  have q0: "0 < q" by (simp add: q_def)
  have qb: "q \<le> \<bar>x\<bar> / 512 + 1 / 1024" unfolding q_def by (rule quantum_bound [OF False])
  have "\<bar>of_int (round_half_even (x / q)) - x / q\<bar> * q \<le> 1 / 2 * q"
    using round_half_even_error [of "x / q"] q0 by (intro mult_right_mono) simp_all
  moreover have "\<bar>of_int (round_half_even (x / q)) - x / q\<bar> * q = \<bar>r - x\<bar>"
  proof -
    have "r - x = (of_int (round_half_even (x / q)) - x / q) * q"
      using q0 by (simp add: r_def algebra_simps)
    then show ?thesis using q0 by (simp add: abs_mult)
  qed
  ultimately have e: "\<bar>r - x\<bar> \<le> q / 2" by simp
  with qb have c: "\<bar>r - x\<bar> \<le> \<bar>x\<bar> / 1024 + 1 / 2048" by simp
  with assms have "\<bar>r\<bar> \<le> 2048" by linarith
  moreover have "(2048::real) < 2 powr 1024"
  proof -
    have "(2::real) powr 11 < 2 powr 1024" by (rule powr_less_mono) simp_all
    then show ?thesis by simp
  qed
  ultimately have "\<not> 2 powr 1024 \<le> \<bar>r\<bar>" by linarith
  then have "round64 x = Fin r"
    using False by (simp add: round64_def Let_def q_def [symmetric] r_def [symmetric])
  with c show ?thesis by blast
qed

lemma round_half_even_ge:
  assumes "of_int k \<le> t"
  shows "k \<le> round_half_even t"
proof -
  have "k \<le> \<lfloor>t\<rfloor>" using assms by (simp add: le_floor_iff)
  then show ?thesis by (auto simp: round_half_even_def Let_def)
qed

lemma round64_overflow:
  assumes "2 powr 1024 \<le> x"
  shows "round64 x = PosInf"
proof -
  have p: "(0::real) < 2 powr 1024" by simp
  with assms have x: "0 < x" by linarith
  define e where "e = max \<lfloor>log 2 \<bar>x\<bar>\<rfloor> (- 1022)"
  define q :: real where "q = 2 powr (of_int e - 52)"
  have q: "0 < q" by (simp add: q_def)
  have "1024 \<le> log 2 x" using le_log_iff [of 2 x 1024] assms x by simp
  then have "1024 \<le> \<lfloor>log 2 x\<rfloor>" by (simp add: le_floor_iff)
  then have e: "e = \<lfloor>log 2 x\<rfloor>" "1024 \<le> e" using x by (simp_all add: e_def)
  have "of_int e \<le> log 2 x" using x by (simp add: e(1))
  then have ex: "2 powr of_int e \<le> x" using x by (simp add: le_log_iff)
  have "2 powr of_int e = 2 powr 52 * q" by (simp add: q_def powr_diff)
  with ex q have "2 powr 52 \<le> x / q" by (simp add: pos_le_divide_eq)
  moreover have "(2::real) powr 52 = of_int (2 ^ 52)" by (simp add: powr_numeral)
  ultimately have "of_int (2 ^ 52) \<le> x / q" by simp
  then have "2 ^ 52 \<le> round_half_even (x / q)" by (rule round_half_even_ge)
  then have "(2::real) ^ 52 \<le> of_int (round_half_even (x / q))"
    by (metis of_int_le_iff of_int_numeral of_int_power)
  then have "2 ^ 52 * q \<le> of_int (round_half_even (x / q)) * q" using q by simp
  moreover have "2 ^ 52 * q = 2 powr of_int e" by (simp add: q_def powr_diff powr_numeral)
  moreover have "(2::real) powr 1024 \<le> 2 powr of_int e"
  proof (rule powr_mono)
    show "1024 \<le> real_of_int e" using e(2) by simp
  qed simp
  ultimately have "2 powr 1024 \<le> of_int (round_half_even (x / q)) * q" by linarith
  then have "2 powr 1024 \<le> \<bar>of_int (round_half_even (x / q)) * q\<bar>" by linarith
  then show ?thesis using x unfolding round64_def e_def [symmetric] q_def [symmetric] Let_def
    by (simp add: e_def [symmetric] q_def [symmetric])
qed

lemma seven_e308_overflows: "(2::real) powr 1024 \<le> 10 ^ 308 * 7"
proof -
  have "(2::real) powr 1024 = 2 ^ 1024" by (simp add: powr_numeral)
  also have "\<dots> \<le> 10 ^ 308 * 7" by simp
  finally show ?thesis .
qed

lemma trunc_mul7:
  assumes "0 \<le> x" "x \<le> 1" "real k + 1 / 50 \<le> x * 7" "x * 7 \<le> real k + 49 / 50"
  shows "py_int (py_mul (Fin x) 7) = Inr (int k)"
proof -
  have "\<bar>x * 7\<bar> \<le> 1024" using assms(1,2) by simp
  from round64_close [OF this] obtain r where r: "round64 (x * 7) = Fin r"
    and c: "\<bar>r - x * 7\<bar> \<le> \<bar>x * 7\<bar> / 1024 + 1 / 2048" by blast
  have "\<bar>x * 7\<bar> \<le> 7" using assms(1,2) by linarith
  then have "\<bar>x * 7\<bar> / 1024 \<le> 7 / 1024" by (rule divide_right_mono) simp
  then have "\<bar>x * 7\<bar> / 1024 + 1 / 2048 \<le> 1 / 100" by simp
  with c have "\<bar>r - x * 7\<bar> \<le> 1 / 100" by linarith
  with assms(3,4) have b: "real k \<le> r" "r < real k + 1" by linarith+
  then have "0 \<le> r" by linarith
  moreover have "\<lfloor>r\<rfloor> = int k" using b by (simp add: floor_eq_iff)
  ultimately show ?thesis by (simp add: r)
qed

lemma trunc_rsub_mul6:
  assumes "0 \<le> y" "y \<le> 1" "real k + 1 / 20 \<le> (1 - y) * 6" "(1 - y) * 6 \<le> real k + 19 / 20"
  shows "py_int (py_mul (py_rsub 1 (Fin y)) 6) = Inr (int k)"
proof -
  have "\<bar>1 - y\<bar> \<le> 1024" using assms(1,2) by simp
  from round64_close [OF this] obtain r1 where r1: "round64 (1 - y) = Fin r1"
    and c1: "\<bar>r1 - (1 - y)\<bar> \<le> \<bar>1 - y\<bar> / 1024 + 1 / 2048" by blast
  have "\<bar>1 - y\<bar> \<le> 1" using assms(1,2) by linarith
  then have "\<bar>1 - y\<bar> / 1024 \<le> 1 / 1024" by (rule divide_right_mono) simp
  then have "\<bar>1 - y\<bar> / 1024 + 1 / 2048 \<le> 1 / 512" by simp
  with c1 have d1: "\<bar>r1 - (1 - y)\<bar> \<le> 1 / 512" by linarith
  with assms(1,2) have b1: "\<bar>r1 * 6\<bar> \<le> 7" by linarith
  then have "\<bar>r1 * 6\<bar> \<le> 1024" by linarith
  from round64_close [OF this] obtain r2 where r2: "round64 (r1 * 6) = Fin r2"
    and c2: "\<bar>r2 - r1 * 6\<bar> \<le> \<bar>r1 * 6\<bar> / 1024 + 1 / 2048" by blast
  from b1 have "\<bar>r1 * 6\<bar> / 1024 \<le> 7 / 1024" by (rule divide_right_mono) simp
  then have "\<bar>r1 * 6\<bar> / 1024 + 1 / 2048 \<le> 1 / 100" by simp
  with c2 have d2: "\<bar>r2 - r1 * 6\<bar> \<le> 1 / 100" by linarith
  have "\<bar>r1 * 6 - (1 - y) * 6\<bar> = \<bar>r1 - (1 - y)\<bar> * 6"
    by (simp add: abs_if algebra_simps)
  with d1 have "\<bar>r1 * 6 - (1 - y) * 6\<bar> \<le> 1 / 80" by simp
  with d2 have "\<bar>r2 - (1 - y) * 6\<bar> \<le> 1 / 40" by linarith
  with assms(3,4) have b: "real k \<le> r2" "r2 < real k + 1" by linarith+
  then have "0 \<le> r2" by linarith
  moreover have "\<lfloor>r2\<rfloor> = int k" using b by (simp add: floor_eq_iff)
  ultimately show ?thesis by (simp add: r1 r2)
qed

section \<open>The decoder\<close>

subsection \<open>Decoding a token\<close>






subsection \<open>The preview after each write\<close>

lemma position_inj:
  fixes i j i' j' :: nat
  assumes "j < 66" "j' < 66" "i * 66 + j = i' * 66 + j'"
  shows "i = i' \<and> j = j'"
proof -
  have "(i * 66 + j) mod 66 = j" "(i' * 66 + j') mod 66 = j'" using assms(1,2) by simp_all
  then have "j = j'" using assms(3) by simp
  then show ?thesis using assms(3) by simp
qed

lemma filled_step:
  assumes "j < 66"
  shows "set_px (filled f pal uv (i * 66 + j)) j i (pair_colour f pal (uv ! (i * 66 + j)))
           = filled f pal uv (Suc (i * 66 + j))"
proof -
  have "(px (filled f pal uv (i * 66 + j)))(j := (px (filled f pal uv (i * 66 + j)) j)(i := pair_colour f pal (uv ! (i * 66 + j))))
          = px (filled f pal uv (Suc (i * 66 + j)))"
  proof (intro ext)
    fix j' i'
    show "((px (filled f pal uv (i * 66 + j)))(j := (px (filled f pal uv (i * 66 + j)) j)(i := pair_colour f pal (uv ! (i * 66 + j))))) j' i'
          = px (filled f pal uv (Suc (i * 66 + j))) j' i'"
    proof (cases "j' = j \<and> i' = i")
      case True
      then show ?thesis using assms by (simp add: filled_def)
    next
      case False
      have ne: "i' * 66 + j' \<noteq> i * 66 + j" if "j' < 66"
        using position_inj [OF that assms, of i' i] False by blast
      have "((px (filled f pal uv (i * 66 + j)))(j := (px (filled f pal uv (i * 66 + j)) j)(i := pair_colour f pal (uv ! (i * 66 + j))))) j' i'
              = px (filled f pal uv (i * 66 + j)) j' i'"
        using False by auto
      also have "\<dots> = px (filled f pal uv (Suc (i * 66 + j))) j' i'"
        using ne by (auto simp: filled_def less_Suc_eq)
      finally show ?thesis .
    qed
  qed
  then show ?thesis by (simp add: set_px_def filled_def)
qed

lemma filled_beyond: "length uv \<le> n \<Longrightarrow> length uv \<le> m \<Longrightarrow> min n (length uv) = min m (length uv)"
  by simp

lemma preview_column_ok:
  assumes ok: "\<And>k. k < i * 66 + 66 \<Longrightarrow> k < length uv \<Longrightarrow>
                  decode_pair f pal (uv ! k) = Inr (pair_colour f pal (uv ! k))"
    and j0: "j0 \<le> 66"
  shows "preview_column f pal uv i [j0..<66]
           (min (i * 66 + j0) (length uv), filled f pal uv (min (i * 66 + j0) (length uv)))
         = Inr (min (i * 66 + 66) (length uv), filled f pal uv (min (i * 66 + 66) (length uv)))"
  using j0
proof (induction "66 - j0" arbitrary: j0)
  case 0
  then have "j0 = 66" by simp
  then show ?case by simp
next
  case (Suc d)
  then have lt: "j0 < 66" by simp
  then have up: "[j0..<66] = j0 # [Suc j0..<66]" by (simp add: upt_conv_Cons)
  let ?t = "i * 66 + j0"
  show ?case
  proof (cases "?t < length uv")
    case False
    then have a: "min ?t (length uv) = length uv" and b: "min (i * 66 + 66) (length uv) = length uv"
      using lt by simp_all
    show ?thesis unfolding up a b by simp
  next
    case True
    then have a: "min ?t (length uv) = ?t" by simp
    have dec: "decode_pair f pal (uv ! ?t) = Inr (pair_colour f pal (uv ! ?t))"
      using ok [of ?t] lt True by simp
    have ih: "preview_column f pal uv i [Suc j0..<66]
           (min (i * 66 + Suc j0) (length uv), filled f pal uv (min (i * 66 + Suc j0) (length uv)))
         = Inr (min (i * 66 + 66) (length uv), filled f pal uv (min (i * 66 + 66) (length uv)))"
      using Suc.hyps(1) [of "Suc j0"] Suc.hyps(2) lt by simp
    have c: "min (i * 66 + Suc j0) (length uv) = Suc ?t" using True by simp
    show ?thesis
      unfolding up a using True ih [unfolded c]
      by (simp add: dec filled_step [OF lt])
  qed
qed


lemma preview_columns_ok:
  assumes ok: "\<And>k. k < imax * 66 \<Longrightarrow> k < length uv \<Longrightarrow>
                  decode_pair f pal (uv ! k) = Inr (pair_colour f pal (uv ! k))"
    and i0: "i0 \<le> imax"
  shows "preview_columns f pal uv 66 [i0..<imax]
           (min (i0 * 66) (length uv), filled f pal uv (min (i0 * 66) (length uv)))
         = Inr (min (imax * 66) (length uv), filled f pal uv (min (imax * 66) (length uv)))"
  using i0
proof (induction "imax - i0" arbitrary: i0)
  case 0
  then have "i0 = imax" by simp
  then show ?case by simp
next
  case (Suc d)
  then have lt: "i0 < imax" by simp
  then have up: "[i0..<imax] = i0 # [Suc i0..<imax]" by (simp add: upt_conv_Cons)
  have le: "i0 * 66 + 66 \<le> imax * 66" using lt by simp
  have col: "preview_column f pal uv i0 [0..<66]
           (min (i0 * 66 + 0) (length uv), filled f pal uv (min (i0 * 66 + 0) (length uv)))
         = Inr (min (i0 * 66 + 66) (length uv), filled f pal uv (min (i0 * 66 + 66) (length uv)))"
  proof (rule preview_column_ok)
    fix k assume "k < i0 * 66 + 66" "k < length uv"
    then show "decode_pair f pal (uv ! k) = Inr (pair_colour f pal (uv ! k))"
      using ok [of k] le by simp
  qed simp
  have ih: "preview_columns f pal uv 66 [Suc i0..<imax]
           (min (Suc i0 * 66) (length uv), filled f pal uv (min (Suc i0 * 66) (length uv)))
         = Inr (min (imax * 66) (length uv), filled f pal uv (min (imax * 66) (length uv)))"
    using Suc.hyps(1) [of "Suc i0"] Suc.hyps(2) lt by simp
  have e: "Suc i0 * 66 = i0 * 66 + 66" by simp
  show ?case
    unfolding up using col ih [unfolded e] by simp
qed

lemma filled_0: "filled f pal uv 0 = np_zeros 66 100"
  by (simp add: filled_def np_zeros_def)

lemma create_ok:
  assumes ok: "\<And>k. k < 6600 \<Longrightarrow> k < length (split_str CHR '','' s) \<Longrightarrow>
                  decode_pair f pal (split_str CHR '','' s ! k)
                    = Inr (pair_colour f pal (split_str CHR '','' s ! k))"
  shows "create_uv_preview_image f s pal path fs
    = Inr (cv_flip0 (filled f pal (split_str CHR '','' s) (min 6600 (length (split_str CHR '','' s)))),
           cv_imwrite path (cv_flip0 (filled f pal (split_str CHR '','' s) (min 6600 (length (split_str CHR '','' s))))) fs)"
proof -
  let ?uv = "split_str CHR '','' s"
  have "preview_columns f pal ?uv 66 [0..<100]
           (min (0 * 66) (length ?uv), filled f pal ?uv (min (0 * 66) (length ?uv)))
         = Inr (min (100 * 66) (length ?uv), filled f pal ?uv (min (100 * 66) (length ?uv)))"
    by (rule preview_columns_ok) (use ok in simp_all)
  then have "preview_columns f pal ?uv 66 [0..<100] (0, np_zeros 66 100)
         = Inr (min 6600 (length ?uv), filled f pal ?uv (min 6600 (length ?uv)))"
    by (simp add: filled_0)
  then show ?thesis by (simp add: create_uv_preview_image_def Let_def)
qed

lemma px_flip_filled:
  assumes "r < 66"
  shows "px (cv_flip0 (filled f pal uv n)) r i
    = (if i * 66 + (65 - r) < n then pair_colour f pal (uv ! (i * 66 + (65 - r))) else black)"
proof -
  have "65 - r < (66::nat)" by arith
  then show ?thesis using assms by (simp add: cv_flip0_def filled_def)
qed


lemma unit_mul7_finite:
  assumes "0 \<le> x" "x \<le> 1"
  shows "\<exists>k. py_int (py_mul (Fin x) 7) = Inr k"
proof -
  have "\<bar>x * 7\<bar> \<le> 1024" using assms by linarith
  from round64_close [OF this] obtain r where "round64 (x * 7) = Fin r" by blast
  then show ?thesis by simp
qed

lemma unit_rsub_mul6_finite:
  assumes "0 \<le> y" "y \<le> 1"
  shows "\<exists>k. py_int (py_mul (py_rsub 1 (Fin y)) 6) = Inr k"
proof -
  have a: "\<bar>1 - y\<bar> \<le> 1" using assms by linarith
  then have "\<bar>1 - y\<bar> \<le> 1024" by linarith
  from round64_close [OF this] obtain r1 where r1: "round64 (1 - y) = Fin r1"
    and c1: "\<bar>r1 - (1 - y)\<bar> \<le> \<bar>1 - y\<bar> / 1024 + 1 / 2048" by blast
  from a have "\<bar>1 - y\<bar> / 1024 \<le> 1 / 1024" by (rule divide_right_mono) simp
  with c1 have "\<bar>r1 - (1 - y)\<bar> \<le> 1" by simp
  with a have "\<bar>r1 * 6\<bar> \<le> 1024" by linarith
  from round64_close [OF this] obtain r2 where "round64 (r1 * 6) = Fin r2" by blast
  then show ?thesis by (simp add: r1)
qed

lemma well_formed_decodes:
  assumes "well_formed_pair f e"
  shows "decode_pair f pal e = Inr (pair_colour f pal e)"
proof -
  from assms obtain a0 a1 rest where sp: "split_str CHR '':'' e = a0 # a1 # rest"
    by (auto simp: well_formed_pair_def split: list.splits)
  with assms have w: "case f a0 of
        Some (Fin x) \<Rightarrow>
          (case f a1 of Some (Fin y) \<Rightarrow> 0 \<le> x \<and> x \<le> 1 \<and> 0 \<le> y \<and> y \<le> 1 | _ \<Rightarrow> False)
      | _ \<Rightarrow> False"
    by (simp add: well_formed_pair_def)
  then obtain x where x1: "f a0 = Some (Fin x)"
    by (cases "f a0") (auto split: pyfloat.splits)
  with w have w2: "case f a1 of Some (Fin y) \<Rightarrow> 0 \<le> x \<and> x \<le> 1 \<and> 0 \<le> y \<and> y \<le> 1 | _ \<Rightarrow> False"
    by simp
  then obtain y where y1: "f a1 = Some (Fin y)"
    by (cases "f a1") (auto split: pyfloat.splits)
  with w2 have b: "0 \<le> x" "x \<le> 1" "0 \<le> y" "y \<le> 1"
    by simp_all
  note x = x1 b(1,2) and y = y1 b(3,4)
  from unit_mul7_finite [OF x(2,3)] obtain tu where tu: "py_int (py_mul (Fin x) 7) = Inr tu" ..
  from unit_rsub_mul6_finite [OF y(2,3)] obtain tv
    where tv: "py_int (py_mul (py_rsub 1 (Fin y)) 6) = Inr tv" ..
  have "decode_pair f pal e = Inr (rev_channels (pal (nat (max 0 (min 5 tv))) (nat (max 0 (min 6 tu)))))"
    unfolding decode_pair_def sp
    by (simp del: py_int.simps py_mul.simps py_rsub.simps add: x(1) y(1) tu tv Let_def)
  then show ?thesis by (simp add: pair_colour_def)
qed

lemma malformed_fails:
  "malformed_pair f e \<Longrightarrow> \<exists>err. decode_pair f pal e = Inl err"
  by (auto simp: malformed_pair_def decode_pair_def split: list.splits option.splits)

text \<open>
  Two finite floats do not suffice: \<open>1e308 * 7\<close> is infinite in binary64, and \<open>int\<close>
  raises \<open>OverflowError\<close> on it.
\<close>

lemma finite_float_overflows:
  assumes "split_str CHR '':'' e = a0 # a1 # rest" "f a0 = Some (Fin (10 ^ 308))" "f a1 = Some y"
  shows "decode_pair f pal e = Inl OverflowError"
proof -
  have "py_mul (Fin (10 ^ 308)) 7 = PosInf"
    unfolding py_mul.simps by (rule round64_overflow) (rule seven_e308_overflows)
  then have "py_int (py_mul (Fin (10 ^ 308)) 7) = Inl OverflowError"
    by (simp del: py_mul.simps)
  then show ?thesis
    unfolding decode_pair_def assms(1)
    by (simp del: py_int.simps py_mul.simps py_rsub.simps add: assms(2,3))
qed

text \<open>
  A stream of fewer than 6600 entries, each with two floats between 0 and 1, decodes
  without error: the entry at position \<open>k\<close> gives the colour of column \<open>k div 66\<close>,
  row \<open>65 - k mod 66\<close> of the flipped preview, and every pixel whose position is
  beyond the last entry is black.
\<close>

lemma short_stream_decodes:
  assumes "length (split_str CHR '','' s) < 6600"
    and "\<forall>e\<in>set (split_str CHR '','' s). well_formed_pair f e"
  shows "\<exists>img. create_uv_preview_image f s pal path fs = Inr (img, cv_imwrite path img fs)
           \<and> height img = 66 \<and> width img = 100
           \<and> (\<forall>r<66. \<forall>i<100.
                 if i * 66 + (65 - r) < length (split_str CHR '','' s)
                 then decode_pair f pal (split_str CHR '','' s ! (i * 66 + (65 - r))) = Inr (px img r i)
                 else px img r i = black)"
proof -
  let ?uv = "split_str CHR '','' s"
  let ?img = "cv_flip0 (filled f pal ?uv (min 6600 (length ?uv)))"
  have dec: "decode_pair f pal (?uv ! k) = Inr (pair_colour f pal (?uv ! k))" if "k < length ?uv" for k
    using assms(2) that by (simp add: well_formed_decodes)
  have m: "min 6600 (length ?uv) = length ?uv" using assms(1) by simp
  have a: "create_uv_preview_image f s pal path fs = Inr (?img, cv_imwrite path ?img fs)"
    by (rule create_ok) (rule dec)
  have b: "height ?img = 66" "width ?img = 100"
    by (simp_all add: cv_flip0_def filled_def)
  have c: "if i * 66 + (65 - r) < length ?uv
           then decode_pair f pal (?uv ! (i * 66 + (65 - r))) = Inr (px ?img r i)
           else px ?img r i = black" if "r < 66" for r i
    unfolding m px_flip_filled [OF that] using dec [of "i * 66 + (65 - r)"] by simp
  show ?thesis using a b c by blast
qed

lemma decimal_001: "decimal_float ''0.01'' = Some (Fin (1 / 100))"
  by (simp add: decimal_float_def digit_val_def)

lemma decimal_099: "decimal_float ''0.99'' = Some (Fin (99 / 100))"
  by (simp add: decimal_float_def digit_val_def)

lemma split_one_pair: "split_str CHR '','' ''0.01:0.99'' = [''0.01:0.99'']"
  by simp

lemma split_fields: "split_str CHR '':'' ''0.01:0.99'' = [''0.01'', ''0.99'']"
  by simp

lemma decode_red_fields:
  assumes "split_str CHR '':'' e = ''0.01'' # ''0.99'' # rest"
  shows "decode_pair decimal_float red_corner_palette e = Inr (0, 0, 255)"
proof -
  have u: "py_int (py_mul (Fin (1 / 100)) 7) = Inr 0"
    using trunc_mul7 [of "1 / 100" 0] by simp
  have v: "py_int (py_mul (py_rsub 1 (Fin (99 / 100))) 6) = Inr 0"
    using trunc_rsub_mul6 [of "99 / 100" 0] by simp
  show ?thesis
    unfolding decode_pair_def assms
    by (simp del: py_int.simps py_mul.simps py_rsub.simps
        add: decimal_001 decimal_099 u v red_corner_palette_def rev_channels_def)
qed

lemma decode_red: "decode_pair decimal_float red_corner_palette ''0.01:0.99'' = Inr (0, 0, 255)"
  by (rule decode_red_fields [OF split_fields])

lemma short_stream_one_entry:
  "\<exists>img. create_uv_preview_image decimal_float ''0.01:0.99'' red_corner_palette ''image_preview.png'' no_files
            = Inr (img, cv_imwrite ''image_preview.png'' img no_files)
         \<and> px img 65 0 = (0, 0, 255) \<and> px img 64 0 = black"
proof -
  have l: "length (split_str CHR '','' ''0.01:0.99'') < 6600"
    by (simp add: split_one_pair)
  have w: "\<forall>e\<in>set (split_str CHR '','' ''0.01:0.99''). well_formed_pair decimal_float e"
    by (simp add: split_one_pair well_formed_pair_def split_fields decimal_001 decimal_099)
  from short_stream_decodes [OF l w, of red_corner_palette "''image_preview.png''" no_files]
  obtain img where
    c: "create_uv_preview_image decimal_float ''0.01:0.99'' red_corner_palette ''image_preview.png'' no_files
            = Inr (img, cv_imwrite ''image_preview.png'' img no_files)"
    and p: "\<forall>r<66. \<forall>i<100.
                 if i * 66 + (65 - r) < length (split_str CHR '','' ''0.01:0.99'')
                 then decode_pair decimal_float red_corner_palette (split_str CHR '','' ''0.01:0.99'' ! (i * 66 + (65 - r))) = Inr (px img r i)
                 else px img r i = black"
    by (elim exE conjE) (rule that)
  from p [rule_format, of 65 0] have "px img 65 0 = (0, 0, 255)"
    by (simp add: split_one_pair decode_red)
  moreover from p [rule_format, of 64 0] have "px img 64 0 = black"
    by (simp add: split_one_pair)
  ultimately show ?thesis using c by blast
qed

subsection \<open>Entries beyond the grid\<close>

lemma preview_column_bound:
  "preview_column f pal uv i js (num, img) = Inr (num', img')
     \<Longrightarrow> num' \<le> num + length js \<and> height img' = height img \<and> width img' = width img"
proof (induction js arbitrary: num img)
  case Nil
  then show ?case by simp
next
  case (Cons j js)
  show ?case
  proof (cases "num \<ge> length uv")
    case True
    with Cons.prems show ?thesis by simp
  next
    case False
    with Cons.prems obtain c where c: "decode_pair f pal (uv ! num) = Inr c"
      and r: "preview_column f pal uv i js (num + 1, set_px img j i c) = Inr (num', img')"
      by (auto split: sum.splits)
    from Cons.IH [OF r] show ?thesis by (simp add: set_px_def)
  qed
qed

lemma preview_column_take:
  "6600 \<le> length uv \<Longrightarrow> num + length js \<le> 6600
     \<Longrightarrow> preview_column f pal uv i js (num, img) = preview_column f pal (take 6600 uv) i js (num, img)"
proof (induction js arbitrary: num img)
  case Nil
  then show ?case by simp
next
  case (Cons j js)
  then have n: "num < 6600" by simp
  then have a: "\<not> num \<ge> length uv" "\<not> num \<ge> length (take 6600 uv)" "take 6600 uv ! num = uv ! num"
    using Cons.prems(1) by simp_all
  show ?case
  proof (cases "decode_pair f pal (uv ! num)")
    case (Inl e)
    then show ?thesis using a by simp
  next
    case (Inr c)
    have "preview_column f pal uv i js (num + 1, set_px img j i c)
            = preview_column f pal (take 6600 uv) i js (num + 1, set_px img j i c)"
      using Cons.IH [of "num + 1"] Cons.prems by simp
    then show ?thesis using a Inr by simp
  qed
qed

lemma preview_columns_bound:
  "preview_columns f pal uv h is (num, img) = Inr (num', img')
     \<Longrightarrow> num' \<le> num + h * length is \<and> height img' = height img \<and> width img' = width img"
proof (induction "is" arbitrary: num img)
  case Nil
  then show ?case by simp
next
  case (Cons i "is")
  from Cons.prems obtain n1 img1 where
    c: "preview_column f pal uv i [0..<h] (num, img) = Inr (n1, img1)"
    and r: "preview_columns f pal uv h is (n1, img1) = Inr (num', img')"
    by (auto split: sum.splits)
  from preview_column_bound [OF c] Cons.IH [OF r] show ?case by simp
qed

lemma preview_columns_take:
  "6600 \<le> length uv \<Longrightarrow> num + 66 * length is \<le> 6600
     \<Longrightarrow> preview_columns f pal uv 66 is (num, img) = preview_columns f pal (take 6600 uv) 66 is (num, img)"
proof (induction "is" arbitrary: num img)
  case Nil
  then show ?case by simp
next
  case (Cons i "is")
  have c: "preview_column f pal uv i [0..<66] (num, img) = preview_column f pal (take 6600 uv) i [0..<66] (num, img)"
    using Cons.prems by (intro preview_column_take) simp_all
  show ?case
  proof (cases "preview_column f pal uv i [0..<66] (num, img)")
    case (Inl e)
    then show ?thesis using c by simp
  next
    case (Inr st)
    obtain n1 img1 where st: "st = (n1, img1)" by (cases st)
    from preview_column_bound [OF Inr [unfolded st]] have "n1 \<le> num + 66" by simp
    then have "n1 + 66 * length is \<le> 6600" using Cons.prems(2) by simp
    from Cons.IH [OF Cons.prems(1) this] show ?thesis using Inr c st by simp
  qed
qed

lemma create_take:
  assumes "6600 \<le> length (split_str CHR '','' s)"
  shows "create_uv_preview_image f s pal path fs
       = create_uv_preview_image f (join_str CHR '','' (take 6600 (split_str CHR '','' s))) pal path fs"
proof -
  let ?uv = "split_str CHR '','' s"
  have ne: "take 6600 ?uv \<noteq> []" using assms by auto
  have nc: "\<forall>x\<in>set (take 6600 ?uv). CHR '','' \<notin> set x"
    using split_str_parts_no_sep [of _ "CHR '',''" s] by (meson in_set_takeD)
  have sp: "split_str CHR '','' (join_str CHR '','' (take 6600 ?uv)) = take 6600 ?uv"
    by (rule split_join [OF ne nc])
  have "preview_columns f pal ?uv 66 [0..<100] (0, np_zeros 66 100)
      = preview_columns f pal (take 6600 ?uv) 66 [0..<100] (0, np_zeros 66 100)"
    using assms by (intro preview_columns_take) simp_all
  then show ?thesis by (simp add: create_uv_preview_image_def Let_def sp)
qed

lemma create_shape:
  assumes "create_uv_preview_image f s pal path fs = Inr (img, fs')"
  shows "height img = 66 \<and> width img = 100"
proof -
  let ?uv = "split_str CHR '','' s"
  from assms obtain num img0 where
    c: "preview_columns f pal ?uv 66 [0..<100] (0, np_zeros 66 100) = Inr (num, img0)"
    and i: "img = cv_flip0 img0"
    by (auto simp: create_uv_preview_image_def Let_def split: sum.splits)
  from preview_columns_bound [OF c] show ?thesis
    by (simp add: i cv_flip0_def np_zeros_def)
qed


lemma token_no_comma: "CHR '','' \<notin> set ''0.01:0.99''"
  by simp

lemma split_replicate:
  "0 < n \<Longrightarrow> split_str CHR '','' (join_str CHR '','' (replicate n ''0.01:0.99'')) = replicate n ''0.01:0.99''"
  by (rule split_join) (simp_all add: token_no_comma)

text \<open>
  C10. Of a stream of more than 6600 entries the decoder reads the first 6600 only:
  the result is that of the stream cut after its 6600th entry, and it is a preview
  when each of those entries has two floats between 0 and 1. Whatever the stream, a
  preview that is returned has 100 columns and 66 rows.
\<close>

theorem surplus_entries_ignored:
  assumes "6600 < length (split_str CHR '','' s)"
  shows "create_uv_preview_image f s pal path fs
           = create_uv_preview_image f (join_str CHR '','' (take 6600 (split_str CHR '','' s))) pal path fs
       \<and> (\<forall>s' img fs'. create_uv_preview_image f s' pal path fs = Inr (img, fs')
              \<longrightarrow> height img = 66 \<and> width img = 100)
       \<and> ((\<forall>k<6600. well_formed_pair f (split_str CHR '','' s ! k))
              \<longrightarrow> (\<exists>img. create_uv_preview_image f s pal path fs = Inr (img, cv_imwrite path img fs)))"
proof -
  have a: "create_uv_preview_image f s pal path fs
           = create_uv_preview_image f (join_str CHR '','' (take 6600 (split_str CHR '','' s))) pal path fs"
    using assms by (intro create_take) simp
  have b: "\<forall>s' img fs'. create_uv_preview_image f s' pal path fs = Inr (img, fs')
              \<longrightarrow> height img = 66 \<and> width img = 100"
    using create_shape by blast
  have c: "\<exists>img. create_uv_preview_image f s pal path fs = Inr (img, cv_imwrite path img fs)"
    if wf: "\<forall>k<6600. well_formed_pair f (split_str CHR '','' s ! k)"
  proof -
    have "create_uv_preview_image f s pal path fs
      = Inr (cv_flip0 (filled f pal (split_str CHR '','' s) (min 6600 (length (split_str CHR '','' s)))),
           cv_imwrite path (cv_flip0 (filled f pal (split_str CHR '','' s) (min 6600 (length (split_str CHR '','' s))))) fs)"
      by (rule create_ok) (use wf in \<open>simp add: well_formed_decodes\<close>)
    then show ?thesis by blast
  qed
  show ?thesis using a b c by blast
qed

theorem surplus_entries_ignored_witness:
  "create_uv_preview_image decimal_float (join_str CHR '','' (replicate 6601 ''0.01:0.99''))
       red_corner_palette ''image_preview.png'' no_files
     = create_uv_preview_image decimal_float (join_str CHR '','' (replicate 6600 ''0.01:0.99''))
       red_corner_palette ''image_preview.png'' no_files"
proof -
  have l: "6600 < length (split_str CHR '','' (join_str CHR '','' (replicate 6601 ''0.01:0.99'')))"
    by (simp add: split_replicate)
  from surplus_entries_ignored [OF l, of decimal_float red_corner_palette "''image_preview.png''" no_files,
      THEN conjunct1]
  show ?thesis by (simp add: split_replicate)
qed

subsection \<open>Entries that do not parse\<close>

lemma preview_column_err:
  assumes okb: "\<And>k. k < k0 \<Longrightarrow> decode_pair f pal (uv ! k) = Inr (pair_colour f pal (uv ! k))"
    and bad: "decode_pair f pal (uv ! k0) = Inl e"
    and k0: "k0 < length uv" "k0 < i * 66 + 66"
    and j0: "i * 66 + j0 \<le> k0"
  shows "preview_column f pal uv i [j0..<66] (i * 66 + j0, img) = Inl e"
  using j0
proof (induction "66 - j0" arbitrary: j0 img)
  case 0
  then show ?case using k0 by simp
next
  case (Suc d)
  then have lt: "j0 < 66" by simp
  then have up: "[j0..<66] = j0 # [Suc j0..<66]" by (simp add: upt_conv_Cons)
  have nb: "\<not> i * 66 + j0 \<ge> length uv" using Suc.prems k0 by simp
  show ?case
  proof (cases "i * 66 + j0 = k0")
    case True
    show ?thesis unfolding up using nb bad True by simp
  next
    case False
    then have l: "i * 66 + j0 < k0" using Suc.prems by simp
    have ih: "preview_column f pal uv i [Suc j0..<66]
                (i * 66 + Suc j0, set_px img j0 i (pair_colour f pal (uv ! (i * 66 + j0)))) = Inl e"
      using Suc.hyps(1) [of "Suc j0"] Suc.hyps(2) l by simp
    show ?thesis unfolding up using nb okb [OF l] ih by simp
  qed
qed

lemma preview_columns_err:
  assumes okb: "\<And>k. k < k0 \<Longrightarrow> decode_pair f pal (uv ! k) = Inr (pair_colour f pal (uv ! k))"
    and bad: "decode_pair f pal (uv ! k0) = Inl e"
    and k0: "k0 < length uv" "k0 < imax * 66"
    and i0: "i0 * 66 \<le> k0"
  shows "preview_columns f pal uv 66 [i0..<imax] (i0 * 66, filled f pal uv (i0 * 66)) = Inl e"
  using i0
proof (induction "imax - i0" arbitrary: i0)
  case 0
  then have "imax \<le> i0" by simp
  then have "imax * 66 \<le> i0 * 66" by simp
  then show ?case using k0 "0.prems" by simp
next
  case (Suc d)
  then have lt: "i0 < imax" by simp
  then have up: "[i0..<imax] = i0 # [Suc i0..<imax]" by (simp add: upt_conv_Cons)
  show ?case
  proof (cases "k0 < i0 * 66 + 66")
    case True
    have "preview_column f pal uv i0 [0..<66] (i0 * 66 + 0, filled f pal uv (i0 * 66)) = Inl e"
      by (rule preview_column_err [OF okb bad k0(1) True]) (use Suc.prems in simp_all)
    then show ?thesis unfolding up by simp
  next
    case False
    then have le: "i0 * 66 + 66 \<le> k0" by simp
    have m1: "min (i0 * 66 + 0) (length uv) = i0 * 66" and m2: "min (i0 * 66 + 66) (length uv) = i0 * 66 + 66"
      using le k0(1) by simp_all
    have "preview_column f pal uv i0 [0..<66]
           (min (i0 * 66 + 0) (length uv), filled f pal uv (min (i0 * 66 + 0) (length uv)))
         = Inr (min (i0 * 66 + 66) (length uv), filled f pal uv (min (i0 * 66 + 66) (length uv)))"
    proof (rule preview_column_ok)
      fix k assume "k < i0 * 66 + 66" "k < length uv"
      then show "decode_pair f pal (uv ! k) = Inr (pair_colour f pal (uv ! k))"
        using okb [of k] le by simp
    qed simp
    then have col: "preview_column f pal uv i0 [0..<66] (i0 * 66, filled f pal uv (i0 * 66))
         = Inr (i0 * 66 + 66, filled f pal uv (i0 * 66 + 66))"
      unfolding m1 m2 .
    have ih: "preview_columns f pal uv 66 [Suc i0..<imax] (Suc i0 * 66, filled f pal uv (Suc i0 * 66)) = Inl e"
      using Suc.hyps(1) [of "Suc i0"] Suc.hyps(2) le by simp
    have e: "Suc i0 * 66 = i0 * 66 + 66" by simp
    show ?thesis unfolding up using col ih [unfolded e] by simp
  qed
qed

lemma decode_pair_cases:
  "decode_pair f pal e = Inr (pair_colour f pal e) \<or> (\<exists>err. decode_pair f pal e = Inl err)"
  by (cases "decode_pair f pal e") (simp_all add: pair_colour_def)

lemma malformed_not_two_floats: "malformed_pair f e \<Longrightarrow> \<not> two_floats f e"
  by (auto simp: malformed_pair_def two_floats_def split: list.splits option.splits)


text \<open>
  C7. When one of the first 6600 entries of a stream has fewer than two
  colon-separated fields, or a first or second field that \<open>float()\<close> rejects, the
  decoder returns an error: there is no preview and no file is written. Fields after
  the second are not read, and neither is an entry after the 6600th: the stream
  \<open>0.01:0.99:junk\<close> decodes to a preview, and so does the stream of 6600 entries
  \<open>0.01:0.99\<close> followed by the entry \<open>x\<close>.
\<close>

theorem malformed_entry_fails:
  assumes "k < length (split_str CHR '','' s)" "k < 6600"
    and "malformed_pair f (split_str CHR '','' s ! k)"
  shows "\<exists>err. create_uv_preview_image f s pal path fs = Inl err"
proof -
  let ?uv = "split_str CHR '','' s"
  let ?P = "\<lambda>k. \<exists>err. decode_pair f pal (?uv ! k) = Inl err"
  have "?P k" using malformed_fails [OF assms(3)] .
  define k0 where "k0 = (LEAST k. ?P k)"
  have P0: "?P k0" unfolding k0_def using \<open>?P k\<close> by (rule LeastI)
  have le: "k0 \<le> k" unfolding k0_def using \<open>?P k\<close> by (rule Least_le)
  have nP: "\<not> ?P m" if "m < k0" for m using that unfolding k0_def by (rule not_less_Least)
  have okb: "decode_pair f pal (?uv ! m) = Inr (pair_colour f pal (?uv ! m))" if "m < k0" for m
    using decode_pair_cases [of f pal "?uv ! m"] nP [OF that] by blast
  from P0 obtain e where bad: "decode_pair f pal (?uv ! k0) = Inl e" by blast
  have k0: "k0 < length ?uv" "k0 < 100 * 66" using le assms(1,2) by simp_all
  have "preview_columns f pal ?uv 66 [0..<100] (0 * 66, filled f pal ?uv (0 * 66)) = Inl e"
    by (rule preview_columns_err [OF okb bad k0]) simp_all
  then have "preview_columns f pal ?uv 66 [0..<100] (0, np_zeros 66 100) = Inl e"
    by (simp add: filled_0)
  then have "create_uv_preview_image f s pal path fs = Inl e"
    by (simp add: create_uv_preview_image_def Let_def)
  then show ?thesis by blast
qed

lemma split_no_colon: "split_str CHR '':'' ''x'' = [''x'']"
  by simp

theorem malformed_entry_fails_witness:
  "isl (create_uv_preview_image decimal_float ''x'' red_corner_palette ''image_preview.png'' no_files)"
proof -
  have s: "split_str CHR '','' ''x'' = [''x'']" by simp
  have a: "0 < length (split_str CHR '','' ''x'')" and b: "(0::nat) < 6600" by (simp_all add: s)
  have c: "malformed_pair decimal_float (split_str CHR '','' ''x'' ! 0)"
    by (simp add: s malformed_pair_def split_no_colon)
  from malformed_entry_fails [OF a b c, of red_corner_palette "''image_preview.png''" no_files]
  obtain err where "create_uv_preview_image decimal_float ''x'' red_corner_palette ''image_preview.png'' no_files = Inl err"
    by blast
  then show ?thesis by simp
qed

lemma split_overlong:
  "split_str CHR '','' overlong_stream = replicate 6600 ''0.01:0.99'' @ [''x'']"
  unfolding overlong_stream_def
  by (rule split_join) (auto simp: token_no_comma)

lemma split_junk: "split_str CHR '':'' ''0.01:0.99:junk'' = [''0.01'', ''0.99'', ''junk'']"
  by simp

lemma split_junk_stream: "split_str CHR '','' ''0.01:0.99:junk'' = [''0.01:0.99:junk'']"
  by simp

lemma overlong_decodes:
  "\<not> isl (create_uv_preview_image decimal_float overlong_stream red_corner_palette
              ''image_preview.png'' no_files)"
proof -
  have ok: "decode_pair decimal_float red_corner_palette (split_str CHR '','' overlong_stream ! k)
          = Inr (pair_colour decimal_float red_corner_palette (split_str CHR '','' overlong_stream ! k))"
    if "k < 6600" for k
  proof -
    have "split_str CHR '','' overlong_stream ! k = ''0.01:0.99''"
      using that by (simp add: split_overlong nth_append)
    then show ?thesis by (simp add: pair_colour_def decode_red)
  qed
  have "create_uv_preview_image decimal_float overlong_stream red_corner_palette ''image_preview.png'' no_files
    = Inr (cv_flip0 (filled decimal_float red_corner_palette (split_str CHR '','' overlong_stream)
              (min 6600 (length (split_str CHR '','' overlong_stream)))),
           cv_imwrite ''image_preview.png'' (cv_flip0 (filled decimal_float red_corner_palette (split_str CHR '','' overlong_stream)
              (min 6600 (length (split_str CHR '','' overlong_stream))))) no_files)"
    by (rule create_ok) (rule ok)
  then show ?thesis by simp
qed

lemma junk_decodes:
  "\<not> isl (create_uv_preview_image decimal_float ''0.01:0.99:junk'' red_corner_palette
              ''image_preview.png'' no_files)"
proof -
  have ok: "decode_pair decimal_float red_corner_palette (split_str CHR '','' ''0.01:0.99:junk'' ! k)
          = Inr (pair_colour decimal_float red_corner_palette (split_str CHR '','' ''0.01:0.99:junk'' ! k))"
    if "k < length (split_str CHR '','' ''0.01:0.99:junk'')" for k
  proof -
    from that have "k = 0" by (simp add: split_junk_stream)
    then have "split_str CHR '','' ''0.01:0.99:junk'' ! k = ''0.01:0.99:junk''"
      by (simp add: split_junk_stream)
    then show ?thesis by (simp add: pair_colour_def decode_red_fields [OF split_junk])
  qed
  have "create_uv_preview_image decimal_float ''0.01:0.99:junk'' red_corner_palette ''image_preview.png'' no_files
    = Inr (cv_flip0 (filled decimal_float red_corner_palette (split_str CHR '','' ''0.01:0.99:junk'')
              (min 6600 (length (split_str CHR '','' ''0.01:0.99:junk'')))),
           cv_imwrite ''image_preview.png'' (cv_flip0 (filled decimal_float red_corner_palette (split_str CHR '','' ''0.01:0.99:junk'')
              (min 6600 (length (split_str CHR '','' ''0.01:0.99:junk''))))) no_files)"
    by (rule create_ok) (rule ok)
  then show ?thesis by simp
qed

theorem unparsed_entry_counterexample:
  "\<not> two_floats decimal_float (split_str CHR '','' ''0.01:0.99:junk'' ! 0)
   \<and> \<not> isl (create_uv_preview_image decimal_float ''0.01:0.99:junk'' red_corner_palette
              ''image_preview.png'' no_files)
   \<and> \<not> two_floats decimal_float (split_str CHR '','' overlong_stream ! 6600)
   \<and> \<not> isl (create_uv_preview_image decimal_float overlong_stream red_corner_palette
              ''image_preview.png'' no_files)"
proof -
  have a: "\<not> two_floats decimal_float (split_str CHR '','' ''0.01:0.99:junk'' ! 0)"
    by (simp add: split_junk_stream two_floats_def split_junk)
  have x: "split_str CHR '','' overlong_stream ! 6600 = ''x''"
    by (simp add: split_overlong nth_append)
  have b: "\<not> two_floats decimal_float (split_str CHR '','' overlong_stream ! 6600)"
    unfolding x by (simp add: two_floats_def split_no_colon)
  show ?thesis
    by (intro conjI a b junk_decodes overlong_decodes)
qed

subsection \<open>The stream without entries\<close>

lemma split_empty: "split_str CHR '','' [] = [[]]"
  by simp




section \<open>The file written by the encoder\<close>

text \<open>
  C9. The encoder calls \<open>save_resized_texture\<close>: after encoding, the files are those
  before it with \<open>resized_texture.png\<close> set to the palette visualization, and
  nothing else is changed; the stream does not depend on the files. Encoding from no
  files at all leaves that one file behind.
\<close>

theorem encoder_writes_palette_file:
  "snd (serialize_image_to_uv rs src pal alg fs)
     = fs(''resized_texture.png'' \<mapsto> fst (save_resized_texture pal ''resized_texture.png'' fs))
   \<and> fst (serialize_image_to_uv rs src pal alg fs) = fst (serialize_image_to_uv rs src pal alg fs')"
  by (simp add: serialize_image_to_uv_def Let_def save_resized_texture_def cv_imwrite_def)

theorem encoder_writes_palette_file_witness:
  "\<not> (width black_image \<noteq> 100 \<or> height black_image \<noteq> 66)
   \<and> snd (serialize_image_to_uv same_image black_image red_corner_palette find_closest_colour_rgb no_files)
         ''resized_texture.png''
       = Some (fst (save_resized_texture red_corner_palette ''resized_texture.png'' no_files))"
proof -
  have s: "\<not> (width black_image \<noteq> 100 \<or> height black_image \<noteq> 66)"
    by (simp add: black_image_def np_zeros_def)
  from encoder_writes_palette_file [of same_image black_image red_corner_palette
      find_closest_colour_rgb no_files no_files, THEN conjunct1]
  have "snd (serialize_image_to_uv same_image black_image red_corner_palette find_closest_colour_rgb no_files)
         ''resized_texture.png''
       = Some (fst (save_resized_texture red_corner_palette ''resized_texture.png'' no_files))"
    by (simp only: fun_upd_same)
  with s show ?thesis by (rule conjI)
qed

theorem encoder_writes_file_counterexample:
  "snd (serialize_image_to_uv same_image black_image red_corner_palette find_closest_colour_rgb no_files)
      ''resized_texture.png'' \<noteq> no_files ''resized_texture.png''"
  by (simp add: serialize_image_to_uv_def Let_def save_resized_texture_def cv_imwrite_def no_files_def)

section \<open>Decoding and encoding again\<close>

subsection \<open>Quantizing a palette colour that was chosen\<close>






































subsection \<open>The round trip\<close>









end
